theory Spec2Isabelle
  imports Main "HOL-Library.Word"
begin

unbundle bit_operations_syntax

section \<open>Bytes, buffers and the constants of filter_aes256.c\<close>

type_synonym byte = "8 word"
type_synonym bytes = "byte list"

abbreviation (input) FILTER_BLOCK_SIZE :: nat where "FILTER_BLOCK_SIZE \<equiv> 16384"
abbreviation (input) KEY_SIZE :: nat where "KEY_SIZE \<equiv> 64"
abbreviation (input) IV_SIZE :: nat where "IV_SIZE \<equiv> 16"
abbreviation (input) MAC_SIZE :: nat where "MAC_SIZE \<equiv> 32"
abbreviation (input) SALT_SIZE :: nat where "SALT_SIZE \<equiv> 16"
abbreviation (input) FP_SIZE :: nat where "FP_SIZE \<equiv> SALT_SIZE + KEY_SIZE"
abbreviation (input) AES_BLOCK_SIZE :: nat where "AES_BLOCK_SIZE \<equiv> 16"
abbreviation (input) EVP_MAX_MD_SIZE :: nat where "EVP_MAX_MD_SIZE \<equiv> 64"

text \<open>The size of the two staging arrays \<open>in\<close> and \<open>blk\<close> of \<open>struct aes256_ctx\<close>.\<close>

abbreviation (input) BUF_SIZE :: nat where
  "BUF_SIZE \<equiv> IV_SIZE + FILTER_BLOCK_SIZE + AES_BLOCK_SIZE + MAC_SIZE"

text \<open>
  \<open>memcpy(dst + off, src, length src)\<close> on an array held as a list. The program only
  copies inside the array (\<open>off + length src \<le> length dst\<close>).
\<close>

definition memcpy :: "'a list \<Rightarrow> nat \<Rightarrow> 'a list \<Rightarrow> 'a list" where
  "memcpy dst off src = take off dst @ src @ drop (off + length src) dst"

text \<open>A value stored into an \<open>unsigned int\<close> field.\<close>

definition u32 :: "nat \<Rightarrow> nat" where
  "u32 n = n mod 2 ^ 32"

text \<open>
  The difference of two \<open>unsigned int\<close> values, and of two \<open>size_t\<close> values (64 bits):
  both wrap around.
\<close>

definition uint_sub :: "nat \<Rightarrow> nat \<Rightarrow> nat" where
  "uint_sub x y = (x mod 2 ^ 32 + 2 ^ 32 - y mod 2 ^ 32) mod 2 ^ 32"

definition size_t_sub :: "nat \<Rightarrow> nat \<Rightarrow> nat" where
  "size_t_sub x y = (x mod 2 ^ 64 + 2 ^ 64 - y mod 2 ^ 64) mod 2 ^ 64"

text \<open>
  \<open>n\<close> bytes read at \<open>in + off\<close>, where \<open>in\<close> points to the caller's buffer \<open>inp\<close> and
  \<open>past i\<close> is the byte that lies \<open>i\<close> places after the end of that buffer in the
  caller's memory.
\<close>

definition read_in :: "bytes \<Rightarrow> (nat \<Rightarrow> byte) \<Rightarrow> nat \<Rightarrow> nat \<Rightarrow> bytes" where
  "read_in inp past off n =
     map (\<lambda>i. if i < length inp then inp ! i else past (i - length inp)) [off ..< off + n]"

section \<open>The OpenSSL interface the filter is written against\<close>

text \<open>
  The primitives themselves (HMAC, the AES block cipher, the digests, the key derivation
  of the host library) are parameters. Every library call whose status the filter tests
  can fail: \<open>lib_ok\<close> says which calls succeed.
\<close>

datatype md_alg = EVP_sha1 | EVP_sha512

text \<open>The call sites, named after the function called and the function calling.\<close>

datatype lib_call =
    Prepare_HMAC_Init_ivhash | Prepare_HMAC_Init_hmac
  | Prepare_EncryptInit | Prepare_DecryptInit
  | Derive_DigestInit | Derive_DigestUpdate | Derive_DigestFinal
  | Keyfp_SHA256
  | Upload_HMAC_Init_ivhash | Upload_HMAC_Update_ivmac | Upload_HMAC_Update_in
  | Upload_HMAC_Final_ivhash
  | Upload_EncryptInit | Upload_EncryptUpdate | Upload_EncryptFinal
  | Upload_HMAC_Init_hmac | Upload_HMAC_Update_blk | Upload_HMAC_Final_hmac
  | Download_HMAC_Init | Download_HMAC_Update | Download_HMAC_Final
  | Download_DecryptInit | Download_DecryptUpdate

record crypto =
  HMAC :: "md_alg \<Rightarrow> bytes \<Rightarrow> bytes \<Rightarrow> bytes"
  AES_encrypt :: "bytes \<Rightarrow> bytes \<Rightarrow> bytes"
  AES_decrypt :: "bytes \<Rightarrow> bytes \<Rightarrow> bytes"
  lib_ok :: "lib_call \<Rightarrow> bool"

subsection \<open>HMAC contexts\<close>

record hmac_ctx =
  hmd :: "md_alg option"
  hkey :: bytes
  hdata :: bytes

definition HMAC_CTX_init :: hmac_ctx where
  "HMAC_CTX_init = \<lparr>hmd = None, hkey = [], hdata = []\<rparr>"

text \<open>\<open>HMAC_Init_ex(ctx, key, len, md, NULL)\<close> with a key and a digest.\<close>

definition HMAC_Init_ex :: "hmac_ctx \<Rightarrow> bytes \<Rightarrow> md_alg \<Rightarrow> hmac_ctx" where
  "HMAC_Init_ex h k m = \<lparr>hmd = Some m, hkey = k, hdata = []\<rparr>"

text \<open>\<open>HMAC_Init_ex(ctx, NULL, 0, NULL, NULL)\<close>: the same key and digest, a new message.\<close>

definition HMAC_Init_reset :: "hmac_ctx \<Rightarrow> hmac_ctx" where
  "HMAC_Init_reset h = h\<lparr>hdata := []\<rparr>"

definition HMAC_Update :: "hmac_ctx \<Rightarrow> bytes \<Rightarrow> hmac_ctx" where
  "HMAC_Update h d = h\<lparr>hdata := hdata h @ d\<rparr>"

definition HMAC_Final :: "crypto \<Rightarrow> hmac_ctx \<Rightarrow> bytes" where
  "HMAC_Final cr h = (case hmd h of None \<Rightarrow> [] | Some m \<Rightarrow> HMAC cr m (hkey h) (hdata h))"

subsection \<open>EVP cipher contexts: AES-256-CBC with the library's padding\<close>

record cipher_ctx =
  cipher_key :: bytes
  cipher_iv :: bytes
  buf :: bytes
  final_used :: bool
  final :: bytes

definition EVP_CIPHER_CTX_init :: cipher_ctx where
  "EVP_CIPHER_CTX_init =
     \<lparr>cipher_key = [], cipher_iv = replicate 16 0, buf = [], final_used = False, final = []\<rparr>"

text \<open>\<open>EVP_EncryptInit_ex(ctx, EVP_aes_256_cbc(), NULL, key, NULL)\<close>, and the same for decryption.\<close>

definition EVP_CipherInit_key :: "cipher_ctx \<Rightarrow> bytes \<Rightarrow> cipher_ctx" where
  "EVP_CipherInit_key c k = c\<lparr>cipher_key := k, buf := [], final_used := False\<rparr>"

text \<open>\<open>EVP_EncryptInit_ex(ctx, NULL, NULL, NULL, iv)\<close>, and the same for decryption.\<close>

definition EVP_CipherInit_iv :: "cipher_ctx \<Rightarrow> bytes \<Rightarrow> cipher_ctx" where
  "EVP_CipherInit_iv c iv = c\<lparr>cipher_iv := iv, buf := [], final_used := False\<rparr>"

function blocks_of :: "nat \<Rightarrow> 'a list \<Rightarrow> 'a list list" where
  "blocks_of n xs = (if n = 0 \<or> xs = [] then [] else take n xs # blocks_of n (drop n xs))"
  by pat_completeness auto
termination
  by (relation "measure (\<lambda>(n, xs). length xs)") auto

declare blocks_of.simps [simp del]

fun cbc_encrypt_blocks :: "(bytes \<Rightarrow> bytes) \<Rightarrow> bytes \<Rightarrow> bytes list \<Rightarrow> bytes list" where
  "cbc_encrypt_blocks E iv [] = []"
| "cbc_encrypt_blocks E iv (b # bs) =
     (let c = E (map2 (XOR) b iv) in c # cbc_encrypt_blocks E c bs)"

fun cbc_decrypt_blocks :: "(bytes \<Rightarrow> bytes) \<Rightarrow> bytes \<Rightarrow> bytes list \<Rightarrow> bytes list" where
  "cbc_decrypt_blocks D iv [] = []"
| "cbc_decrypt_blocks D iv (c # cs) = map2 (XOR) (D c) iv # cbc_decrypt_blocks D c cs"

text \<open>
  \<open>EVP_EncryptUpdate\<close>: the whole 16-byte blocks of the buffered and the new bytes are
  encrypted in CBC mode, the rest is buffered.
\<close>

definition EVP_EncryptUpdate :: "crypto \<Rightarrow> cipher_ctx \<Rightarrow> bytes \<Rightarrow> bytes \<times> cipher_ctx" where
  "EVP_EncryptUpdate cr c inp =
     (let data = buf c @ inp;
          n = (length data div 16) * 16;
          cs = cbc_encrypt_blocks (AES_encrypt cr (cipher_key c)) (cipher_iv c)
                 (blocks_of 16 (take n data))
      in (concat cs, c\<lparr>cipher_iv := last (cipher_iv c # cs), buf := drop n data\<rparr>))"

text \<open>\<open>EVP_EncryptFinal_ex\<close>: the buffered bytes, padded with \<open>n\<close> bytes of value \<open>n\<close>.\<close>

definition EVP_EncryptFinal_ex :: "crypto \<Rightarrow> cipher_ctx \<Rightarrow> bytes" where
  "EVP_EncryptFinal_ex cr c =
     (let n = 16 - length (buf c)
      in AES_encrypt cr (cipher_key c)
           (map2 (XOR) (buf c @ replicate n (of_nat n)) (cipher_iv c)))"

text \<open>
  \<open>EVP_DecryptUpdate\<close>: with no input it returns at once; otherwise the whole blocks are
  decrypted and, when nothing is left in the buffer, the last decrypted block is held back
  in \<open>final\<close>.
\<close>

definition EVP_DecryptUpdate :: "crypto \<Rightarrow> cipher_ctx \<Rightarrow> bytes \<Rightarrow> bytes \<times> cipher_ctx" where
  "EVP_DecryptUpdate cr c inp =
     (if inp = [] then ([], c)
      else
        let data = buf c @ inp;
            n = (length data div 16) * 16;
            cblocks = blocks_of 16 (take n data);
            ps = concat (cbc_decrypt_blocks (AES_decrypt cr (cipher_key c)) (cipher_iv c) cblocks);
            pre = (if final_used c then final c else []);
            c1 = c\<lparr>cipher_iv := last (cipher_iv c # cblocks), buf := drop n data\<rparr>
        in if buf c1 = []
           then (pre @ take (n - 16) ps, c1\<lparr>final_used := True, final := drop (n - 16) ps\<rparr>)
           else (pre @ ps, c1\<lparr>final_used := False\<rparr>))"

text \<open>
  \<open>EVP_DecryptFinal_ex\<close> fails when bytes are left in the buffer, when no block was held
  back, or when the padding of the held-back block is wrong.
\<close>

definition EVP_DecryptFinal_ex :: "cipher_ctx \<Rightarrow> bytes option" where
  "EVP_DecryptFinal_ex c =
     (if buf c \<noteq> [] \<or> \<not> final_used c \<or> final c = [] then None
      else
        let n = unat (last (final c)) in
        if n = 0 \<or> n > 16 then None
        else if \<not> list_all (\<lambda>x. unat x = n) (drop (16 - n) (final c)) then None
        else Some (take (16 - n) (final c)))"

section \<open>The session context\<close>

datatype sxf_mode = SXF_MODE_UPLOAD | SXF_MODE_DOWNLOAD

datatype sxf_action = SXF_ACTION_NORMAL | SXF_ACTION_REPEAT | SXF_ACTION_DATA_END

datatype error =
    LibraryMismatch
  | ConfigurationError
  | Oom
  | IoError
  | PasswordAbort
  | DeriveKeyFailure
  | FingerprintFailure
  | MetaFailure
  | CryptoFailure lib_call
  | WrongDigestSize
  | BadMacSize
  | IncompleteData
  | AuthenticationFailure

text \<open>
  \<open>struct aes256_ctx\<close>. The array \<open>in\<close> is the field \<open>inbuf\<close>; \<open>data_end\<close> and
  \<open>decrypt_err\<close> only ever hold 0 or 1.
\<close>

record aes256_ctx =
  ectx :: cipher_ctx
  dctx :: cipher_ctx
  ivhash :: hmac_ctx
  hmac :: hmac_ctx
  key :: bytes
  ivmac :: bytes
  inbytes :: nat
  blkbytes :: nat
  data_in :: nat
  data_out_left :: nat
  data_end :: bool
  inbuf :: bytes
  blk :: bytes
  keyfile :: "string option"
  decrypt_err :: bool

section \<open>hmac_compare\<close>

text \<open>
  \<open>while(len--) mismatch |= *hmac1++ ^ *hmac2++;\<close> over the first \<open>len\<close> bytes of both
  arrays; the result is the accumulated byte, as an \<open>int\<close>.
\<close>

definition hmac_compare :: "bytes \<Rightarrow> bytes \<Rightarrow> nat \<Rightarrow> int" where
  "hmac_compare hmac1 hmac2 len =
     uint (fold (\<lambda>(a, b) mismatch. mismatch OR (a XOR b))
             (zip (take len hmac1) (take len hmac2)) (0 :: byte))"

section \<open>aes256_data_process\<close>

subsection \<open>The encrypt path of one block\<close>

text \<open>
  The path in its three parts: the IV from the chaining state (it returns \<open>ivaes\<close>), the
  encryption (it returns the length \<open>final\<close>, here \<open>nfinal\<close>), and the tag.
\<close>

definition encrypt_iv :: "crypto \<Rightarrow> aes256_ctx \<Rightarrow> (error + bytes) \<times> aes256_ctx" where
  "encrypt_iv cr actx =
     (if \<not> lib_ok cr Upload_HMAC_Init_ivhash
      then (Inl (CryptoFailure Upload_HMAC_Init_ivhash), actx)
      else
        let a1 = actx\<lparr>ivhash := HMAC_Init_reset (ivhash actx)\<rparr> in
        if \<not> lib_ok cr Upload_HMAC_Update_ivmac
        then (Inl (CryptoFailure Upload_HMAC_Update_ivmac), a1)
        else
          let a2 = a1\<lparr>ivhash := HMAC_Update (ivhash a1) (ivmac a1)\<rparr> in
          if \<not> lib_ok cr Upload_HMAC_Update_in
          then (Inl (CryptoFailure Upload_HMAC_Update_in), a2)
          else
            let a3 = a2\<lparr>ivhash := HMAC_Update (ivhash a2) (take (inbytes a2) (inbuf a2))\<rparr> in
            if \<not> lib_ok cr Upload_HMAC_Final_ivhash
            then (Inl (CryptoFailure Upload_HMAC_Final_ivhash), a3)
            else
              let mac = HMAC_Final cr (ivhash a3);
                  ivlen = length mac in
              if ivlen < IV_SIZE then (Inl WrongDigestSize, a3)
              else
                let ivaes = take IV_SIZE mac in
                (Inr ivaes,
                 a3\<lparr>ivmac := memcpy (ivmac a3) 0 mac, blk := memcpy (blk a3) 0 ivaes\<rparr>))"

definition encrypt_cbc :: "crypto \<Rightarrow> aes256_ctx \<Rightarrow> bytes \<Rightarrow> (error + nat) \<times> aes256_ctx" where
  "encrypt_cbc cr a4 ivaes =
     (if \<not> lib_ok cr Upload_EncryptInit
      then (Inl (CryptoFailure Upload_EncryptInit), a4)
      else
        let a5 = a4\<lparr>ectx := EVP_CipherInit_iv (ectx a4) ivaes\<rparr> in
        if \<not> lib_ok cr Upload_EncryptUpdate
        then (Inl (CryptoFailure Upload_EncryptUpdate), a5)
        else
          let (upd, e1) = EVP_EncryptUpdate cr (ectx a5) (take (inbytes a5) (inbuf a5));
              a6 = a5\<lparr>ectx := e1, blk := memcpy (blk a5) IV_SIZE upd,
                      blkbytes := length upd + IV_SIZE\<rparr> in
          if \<not> lib_ok cr Upload_EncryptFinal
          then (Inl (CryptoFailure Upload_EncryptFinal), a6)
          else
            let fin = EVP_EncryptFinal_ex cr (ectx a6) in
            (Inr (length fin), a6\<lparr>blk := memcpy (blk a6) (blkbytes a6) fin\<rparr>))"

definition encrypt_tag :: "crypto \<Rightarrow> aes256_ctx \<Rightarrow> nat \<Rightarrow> (error + unit) \<times> aes256_ctx" where
  "encrypt_tag cr a7 nfinal =
     (if \<not> lib_ok cr Upload_HMAC_Init_hmac
      then (Inl (CryptoFailure Upload_HMAC_Init_hmac), a7)
      else
        let a8 = a7\<lparr>hmac := HMAC_Init_reset (hmac a7), blkbytes := blkbytes a7 + nfinal\<rparr> in
        if \<not> lib_ok cr Upload_HMAC_Update_blk
        then (Inl (CryptoFailure Upload_HMAC_Update_blk), a8)
        else
          let a9 = a8\<lparr>hmac := HMAC_Update (hmac a8) (take (blkbytes a8) (blk a8))\<rparr> in
          if \<not> lib_ok cr Upload_HMAC_Final_hmac
          then (Inl (CryptoFailure Upload_HMAC_Final_hmac), a9)
          else
            let mac2 = HMAC_Final cr (hmac a9);
                maclen = length mac2 div 2 in
            if maclen \<noteq> MAC_SIZE then (Inl BadMacSize, a9)
            else
              (Inr (), a9\<lparr>blk := memcpy (blk a9) (blkbytes a9) (take maclen mac2),
                           blkbytes := blkbytes a9 + maclen\<rparr>))"

definition encrypt_block :: "crypto \<Rightarrow> aes256_ctx \<Rightarrow> (error + unit) \<times> aes256_ctx" where
  "encrypt_block cr actx =
     (case encrypt_iv cr actx of
        (Inl e, a3) \<Rightarrow> (Inl e, a3)
      | (Inr ivaes, a4) \<Rightarrow>
          (case encrypt_cbc cr a4 ivaes of
             (Inl e, a6) \<Rightarrow> (Inl e, a6)
           | (Inr nfinal, a7) \<Rightarrow> encrypt_tag cr a7 nfinal))"

subsection \<open>The decrypt path of one block\<close>

definition decrypt_block :: "crypto \<Rightarrow> aes256_ctx \<Rightarrow> (error + unit) \<times> aes256_ctx" where
  "decrypt_block cr actx =
     (if \<not> lib_ok cr Download_HMAC_Init then (Inl (CryptoFailure Download_HMAC_Init), actx)
      else
        let a1 = actx\<lparr>hmac := HMAC_Init_reset (hmac actx)\<rparr> in
        if inbytes a1 < IV_SIZE + MAC_SIZE then (Inl IncompleteData, a1)
        else
          let a2 = a1\<lparr>inbytes := inbytes a1 - MAC_SIZE\<rparr> in
          if \<not> lib_ok cr Download_HMAC_Update then (Inl (CryptoFailure Download_HMAC_Update), a2)
          else
            let a3 = a2\<lparr>hmac := HMAC_Update (hmac a2) (take (inbytes a2) (inbuf a2))\<rparr> in
            if \<not> lib_ok cr Download_HMAC_Final then (Inl (CryptoFailure Download_HMAC_Final), a3)
            else
              let mac = HMAC_Final cr (hmac a3);
                  maclen = length mac div 2 in
              if maclen \<noteq> MAC_SIZE then (Inl BadMacSize, a3)
              else if hmac_compare (drop (inbytes a3) (inbuf a3)) mac maclen \<noteq> 0
              then (Inl AuthenticationFailure, a3\<lparr>decrypt_err := True\<rparr>)
              else
                let ivaes = take IV_SIZE (inbuf a3) in
                if \<not> lib_ok cr Download_DecryptInit
                then (Inl (CryptoFailure Download_DecryptInit), a3)
                else
                  let a4 = a3\<lparr>dctx := EVP_CipherInit_iv (dctx a3) ivaes\<rparr> in
                  if \<not> lib_ok cr Download_DecryptUpdate
                  then (Inl (CryptoFailure Download_DecryptUpdate), a4)
                  else
                    let (upd, d1) = EVP_DecryptUpdate cr (dctx a4)
                                      (take (inbytes a4 - IV_SIZE) (drop IV_SIZE (inbuf a4)));
                        a5 = a4\<lparr>dctx := d1, blk := memcpy (blk a4) 0 upd,
                                blkbytes := length upd\<rparr> in
                    (case EVP_DecryptFinal_ex (dctx a5) of
                       None \<Rightarrow> (Inl AuthenticationFailure, a5\<lparr>decrypt_err := True\<rparr>)
                     | Some fin \<Rightarrow>
                         (Inr (), a5\<lparr>blk := memcpy (blk a5) (blkbytes a5) fin,
                                      blkbytes := blkbytes a5 + length fin\<rparr>)))"

subsection \<open>Draining, ingestion and emission\<close>

text \<open>
  The branch \<open>*action == SXF_ACTION_REPEAT && actx->data_out_left\<close>: both arms return.
\<close>

definition drain_output ::
  "aes256_ctx \<Rightarrow> nat \<Rightarrow> nat \<Rightarrow> sxf_action \<Rightarrow> (error + bytes) \<times> aes256_ctx \<times> sxf_action" where
  "drain_output actx insize outsize action =
     (if data_out_left actx > outsize
      then (Inr (take outsize (drop (blkbytes actx - data_out_left actx) (blk actx))),
            actx\<lparr>data_out_left := data_out_left actx - outsize\<rparr>, action)
      else
        let data_out = data_out_left actx;
            out = take data_out (drop (blkbytes actx - data_out_left actx) (blk actx));
            a1 = actx\<lparr>data_out_left := 0, blkbytes := 0\<rparr> in
        if data_in a1 = insize
        then (Inr out, a1\<lparr>data_in := 0\<rparr>,
              if \<not> data_end a1 then SXF_ACTION_NORMAL else SXF_ACTION_DATA_END)
        else (Inr out, a1, action))"

text \<open>
  The copy of the caller's bytes into \<open>in\<close>. Both arms of the source do the same with a
  different count \<open>bytes\<close>. \<open>bsize - actx->inbytes\<close> is a difference of \<open>unsigned int\<close>
  values and \<open>insize - actx->data_in\<close> one of \<open>size_t\<close> values: with
  \<open>data_in > insize\<close> the second wraps around, the first arm is taken and the bytes are
  read past the end of the caller's buffer.
\<close>

definition ingest_input :: "aes256_ctx \<Rightarrow> bytes \<Rightarrow> (nat \<Rightarrow> byte) \<Rightarrow> nat \<Rightarrow> aes256_ctx" where
  "ingest_input actx inp past bsize =
     (let insize = length inp;
          bytes = (if size_t_sub insize (data_in actx) \<ge> uint_sub bsize (inbytes actx)
                   then uint_sub bsize (inbytes actx)
                   else u32 (size_t_sub insize (data_in actx)))
      in actx\<lparr>inbuf := memcpy (inbuf actx) (inbytes actx) (read_in inp past (data_in actx) bytes),
              data_in := u32 (data_in actx + bytes),
              inbytes := u32 (inbytes actx + bytes)\<rparr>)"

text \<open>After a block was produced: \<open>actx->inbytes = 0\<close> and the copy to the caller.\<close>

definition emit_block ::
  "aes256_ctx \<Rightarrow> nat \<Rightarrow> nat \<Rightarrow> (error + bytes) \<times> aes256_ctx \<times> sxf_action" where
  "emit_block actx insize outsize =
     (let a1 = actx\<lparr>inbytes := 0\<rparr> in
      if blkbytes a1 > outsize
      then (Inr (take outsize (blk a1)),
            a1\<lparr>data_out_left := blkbytes a1 - outsize\<rparr>, SXF_ACTION_REPEAT)
      else
        let out = take (blkbytes a1) (blk a1);
            a2 = a1\<lparr>blkbytes := 0\<rparr> in
        if data_in a2 = insize
        then (Inr out, a2\<lparr>data_in := 0\<rparr>,
              if \<not> data_end a2 then SXF_ACTION_NORMAL else SXF_ACTION_DATA_END)
        else (Inr out, a2, SXF_ACTION_REPEAT))"

subsection \<open>The function\<close>

text \<open>
  \<open>inp\<close> is the caller's buffer of \<open>insize\<close> bytes at \<open>in\<close>, and \<open>past\<close> the memory that
  follows it. The result is the returned count, given as the bytes written to \<open>out\<close>
  (\<open>Inl\<close> for the return of \<open>-1\<close>), the context and \<open>*action\<close> after the call.
\<close>

definition aes256_data_process ::
  "crypto \<Rightarrow> aes256_ctx \<Rightarrow> bytes \<Rightarrow> (nat \<Rightarrow> byte) \<Rightarrow> nat \<Rightarrow> sxf_mode \<Rightarrow> sxf_action
     \<Rightarrow> (error + bytes) \<times> aes256_ctx \<times> sxf_action" where
  "aes256_data_process cr actx inp past outsize mode action =
     (let insize = length inp;
          bsize = (if mode = SXF_MODE_UPLOAD then FILTER_BLOCK_SIZE else BUF_SIZE) in
      if action = SXF_ACTION_REPEAT \<and> data_out_left actx \<noteq> 0
      then drain_output actx insize outsize action
      else
        let a1 = (if action = SXF_ACTION_DATA_END then actx\<lparr>data_end := True\<rparr> else actx);
            a2 = ingest_input a1 inp past bsize in
        if inbytes a2 = bsize
           \<or> (inbytes a2 \<noteq> 0 \<and> (action = SXF_ACTION_DATA_END \<or> data_end a2))
        then
          (case (if mode = SXF_MODE_UPLOAD then encrypt_block cr a2 else decrypt_block cr a2) of
             (Inl e, a3) \<Rightarrow> (Inl e, a3, action)
           | (Inr u, a3) \<Rightarrow> emit_block a3 insize outsize)
        else (Inr [], a2\<lparr>data_in := 0\<rparr>, SXF_ACTION_NORMAL))"

section \<open>The world of aes256_data_prepare\<close>

text \<open>
  What \<open>aes256_data_prepare\<close> reads and changes outside the context: the files under the
  configuration directory, the custom metadata of the volume, the answers that
  \<open>sxc_filter_get_input\<close> will give (\<open>None\<close> for a failing call; with no answer left the
  call fails), and the messages handed to \<open>sxc_filter_msg\<close>.
\<close>

datatype log_level = SX_LOG_NOTICE | SX_LOG_WARNING | SX_LOG_ERR

record world =
  files :: "string \<rightharpoonup> bytes"
  custom_meta :: "string \<rightharpoonup> bytes"
  inputs :: "string option list"
  messages :: "(log_level \<times> string) list"

definition NOTICE :: "string \<Rightarrow> world \<Rightarrow> world" where
  "NOTICE m w = w\<lparr>messages := messages w @ [(SX_LOG_NOTICE, m)]\<rparr>"

definition WARN :: "string \<Rightarrow> world \<Rightarrow> world" where
  "WARN m w = w\<lparr>messages := messages w @ [(SX_LOG_WARNING, m)]\<rparr>"

definition ERROR :: "string \<Rightarrow> world \<Rightarrow> world" where
  "ERROR m w = w\<lparr>messages := messages w @ [(SX_LOG_ERR, m)]\<rparr>"

text \<open>
  What the run cannot decide by itself: the library and host functions, which allocations
  and system calls succeed, and the bytes that uninitialised locals of
  \<open>aes256_data_prepare\<close> hold.
\<close>

datatype alloc = Alloc_fpfile | Alloc_keyfile | Alloc_actx

datatype io_call =
    Io_custfp_create | Io_custfp_write | Io_custfp_open | Io_custfp_read | Io_custfp_close
  | Io_custfp_unlink | Io_key_unlink
  | Io_key_open_rd | Io_key_read | Io_key_open_wr | Io_key_write | Io_key_close

record env =
  libcrypto :: crypto
  SHA512 :: "bytes \<Rightarrow> bytes"
  SHA256 :: "bytes \<Rightarrow> bytes"
  sxi_derive_key :: "string \<Rightarrow> bytes \<Rightarrow> string option"
  sxi_bin2hex :: "bytes \<Rightarrow> string"
  RAND_pseudo_bytes :: bytes
  SSLeay :: "32 word"
  SSLEAY_VERSION_NUMBER :: "32 word"
  malloc_ok :: "alloc \<Rightarrow> bool"
  io_ok :: "io_call \<Rightarrow> bool"
  meta_setval_ok :: bool
  stack_key :: bytes
  stack_salt :: bytes
  stack_fp :: bytes
  stack_after_custfp :: bytes

definition sxc_filter_get_input :: "world \<Rightarrow> string option \<times> world" where
  "sxc_filter_get_input w =
     (case inputs w of [] \<Rightarrow> (None, w) | x # xs \<Rightarrow> (x, w\<lparr>inputs := xs\<rparr>))"

definition unlink :: "env \<Rightarrow> io_call \<Rightarrow> string \<Rightarrow> world \<Rightarrow> world" where
  "unlink ev c path w = (if io_ok ev c then w\<lparr>files := (files w)(path := None)\<rparr> else w)"

section \<open>derive_key, getpassword and keyfp\<close>

text \<open>
  The \<open>int\<close> returned and the output buffer (\<open>out\<close>, 64 bytes at both callers) after
  the call.
\<close>

definition derive_key ::
  "env \<Rightarrow> string \<Rightarrow> bytes \<Rightarrow> bytes \<Rightarrow> nat \<Rightarrow> world \<Rightarrow> (int \<times> bytes) \<times> world" where
  "derive_key ev pass salt out out_size w =
     (case sxi_derive_key ev pass salt of
        None \<Rightarrow> ((-1, out), ERROR ''Failed to derive key'' w)
      | Some keybuf \<Rightarrow>
          if \<not> lib_ok (libcrypto ev) Derive_DigestInit
          then ((-1, out), ERROR ''EVP_DigestInit_ex failed'' w)
          else if \<not> lib_ok (libcrypto ev) Derive_DigestUpdate
          then ((-1, out), ERROR ''EVP_DigestUpdate failed'' w)
          else if \<not> lib_ok (libcrypto ev) Derive_DigestFinal
          then ((-1, out), ERROR ''EVP_DigestFinal_ex failed'' w)
          else
            let d = SHA512 ev (map of_char keybuf) in
            if length d \<noteq> out_size
            then ((-1, memcpy out 0 d), ERROR ''Bad digest size'' w)
            else ((0, memcpy out 0 d), w))"

definition getpassword ::
  "env \<Rightarrow> bool \<Rightarrow> sxf_mode \<Rightarrow> bytes \<Rightarrow> bytes \<Rightarrow> world \<Rightarrow> (int \<times> bytes) \<times> world" where
  "getpassword ev repeat mode K salt w =
     (case sxc_filter_get_input w of
        (None, w1) \<Rightarrow> ((-1, K), WARN ''Can't obtain password'' w1)
      | (Some pass1, w1) \<Rightarrow>
          if length pass1 < 8
          then ((1, K), WARN ''ERROR: Password must be at least 8 characters long'' w1)
          else if repeat then
            (case sxc_filter_get_input w1 of
               (None, w2) \<Rightarrow> ((-1, K), WARN ''Can't obtain password'' w2)
             | (Some pass2, w2) \<Rightarrow>
                 if pass1 \<noteq> pass2
                 then ((1, K), WARN ''ERROR: Passwords don't match'' w2)
                 else derive_key ev pass1 (take SALT_SIZE salt) K KEY_SIZE w2)
          else derive_key ev pass1 (take SALT_SIZE salt) K KEY_SIZE w1)"

lemma derive_key_inputs [simp]:
  "inputs (snd (derive_key ev pass salt out n w)) = inputs w"
  by (simp add: derive_key_def ERROR_def Let_def split: option.splits)

lemma getpassword_retry_consumes:
  "getpassword ev repeat mode K salt w = ((1, K'), w') \<Longrightarrow> length (inputs w') < length (inputs w)"
  by (auto simp: getpassword_def sxc_filter_get_input_def WARN_def derive_key_def ERROR_def Let_def
      split: list.splits option.splits if_splits)

text \<open>\<open>while((ret = getpassword(...)) == 1);\<close>\<close>

function getpassword_loop ::
  "env \<Rightarrow> bool \<Rightarrow> sxf_mode \<Rightarrow> bytes \<Rightarrow> bytes \<Rightarrow> world \<Rightarrow> (int \<times> bytes) \<times> world" where
  "getpassword_loop ev repeat mode K salt w =
     (case getpassword ev repeat mode K salt w of
        ((ret, K'), w') \<Rightarrow>
          if ret = 1 then getpassword_loop ev repeat mode K' salt w' else ((ret, K'), w'))"
  by pat_completeness auto
termination
proof (relation "measure (\<lambda>(ev, repeat, mode, K, salt, w). length (inputs w))", goal_cases)
  case 1
  then show ?case by simp
next
  case (2 ev repeat mode K salt w x1 w' ret K')
  then show ?case
    using getpassword_retry_consumes [of ev repeat mode K salt w K' w'] by simp
qed

declare getpassword_loop.simps [simp del]

text \<open>
  \<open>keyfp\<close>: with a current fingerprint it verifies the key against it, without one it
  writes a new fingerprint (salt, then digest). The result is the \<open>int\<close> returned and
  \<open>new_fp\<close>.
\<close>

definition keyfp ::
  "env \<Rightarrow> bytes \<Rightarrow> bytes option \<Rightarrow> world \<Rightarrow> (int \<times> bytes) \<times> world" where
  "keyfp ev K current_fp w =
     (let salt = (case current_fp of
                    Some cfp \<Rightarrow> take SALT_SIZE cfp
                  | None \<Rightarrow> take SALT_SIZE (RAND_pseudo_bytes ev)) in
      if \<not> lib_ok (libcrypto ev) Keyfp_SHA256
      then ((-1, []), ERROR ''Can't create key fingerprint (sha256)'' w)
      else
        let tmp = SHA256 ev (take KEY_SIZE K);
            keyfphex = sxi_bin2hex ev tmp in
        (case derive_key ev keyfphex salt (replicate KEY_SIZE 0) KEY_SIZE w of
           ((r, digest), w1) \<Rightarrow>
             if r \<noteq> 0 then ((-1, []), ERROR ''Can't create key fingerprint'' w1)
             else
               (case current_fp of
                  Some cfp \<Rightarrow>
                    if take KEY_SIZE digest \<noteq> take KEY_SIZE (drop SALT_SIZE cfp)
                    then ((-1, []), ERROR ''Invalid password'' w1)
                    else ((0, []), w1)
                | None \<Rightarrow> ((0, salt @ take KEY_SIZE digest), w1))))"

section \<open>aes256_data_prepare\<close>

subsection \<open>The check of the library version\<close>

text \<open>
  \<open>(runtime_ver & 0xff0000000) != (compile_ver & 0xff0000000)\<close>: both versions are
  \<open>uint32_t\<close>, the mask has nine hexadecimal digits, so the comparison is made on 64 bits.
\<close>

definition version_mismatch :: "env \<Rightarrow> bool" where
  "version_mismatch ev \<longleftrightarrow>
     (ucast (SSLeay ev) :: 64 word) AND 0xff0000000
       \<noteq> (ucast (SSLEAY_VERSION_NUMBER ev) :: 64 word) AND 0xff0000000"

subsection \<open>The fingerprint of the custom metadata and the file custfp\<close>

text \<open>
  The body of \<open>if(!sxc_meta_getval(custom_meta, "aes256_fp", &mdata, &mdata_len))\<close>, as
  compiled outside Windows (\<open>closed\<close> stays 0). \<open>memcmp\<close> compares \<open>mdata_len\<close> bytes of
  the 96-byte local \<open>custfp\<close>, and of what follows it when \<open>mdata_len\<close> is larger.
\<close>

definition custfp_reconcile :: "env \<Rightarrow> string \<Rightarrow> bytes \<Rightarrow> world \<Rightarrow> (error + unit) \<times> world" where
  "custfp_reconcile ev cfgdir mdata w =
     (if \<not> malloc_ok ev Alloc_fpfile then (Inl Oom, ERROR ''OOM'' w)
      else
        let fpfile = cfgdir @ ''/custfp'' in
        (case files w fpfile of
           None \<Rightarrow>
             if \<not> io_ok ev Io_custfp_create
             then (Inl IoError, ERROR ''Can't create file'' w)
             else
               let w1 = w\<lparr>files := (files w)(fpfile \<mapsto> [])\<rparr> in
               if \<not> io_ok ev Io_custfp_write
               then (Inl IoError, ERROR ''Can't write to file'' w1)
               else
                 let w2 = w1\<lparr>files := (files w1)(fpfile \<mapsto> mdata)\<rparr> in
                 if \<not> io_ok ev Io_custfp_close
                 then (Inl IoError, ERROR ''Can't close descriptor'' w2)
                 else (Inr (), w2)
         | Some content \<Rightarrow>
             if \<not> io_ok ev Io_custfp_open
             then (Inl IoError, ERROR ''Can't open file'' w)
             else if \<not> io_ok ev Io_custfp_read \<or> length content < SALT_SIZE + FP_SIZE
             then (Inl IoError, ERROR ''Can't read file'' w)
             else
               let custfp = take (SALT_SIZE + FP_SIZE) content;
                   w1 = (if take (length mdata) (custfp @ stack_after_custfp ev) \<noteq> mdata
                         then unlink ev Io_key_unlink (cfgdir @ ''/key'')
                                (unlink ev Io_custfp_unlink fpfile
                                   (NOTICE ''Detected volume password change'' w))
                         else w) in
               if \<not> io_ok ev Io_custfp_close
               then (Inl IoError, ERROR ''Can't close descriptor'' w1)
               else (Inr (), w1)))"

subsection \<open>The configuration blob\<close>

text \<open>
  The locals the dispatch on the length of the blob sets: \<open>keyread\<close>, \<open>key\<close>, \<open>salt\<close>,
  \<open>fp\<close> and \<open>have_fp\<close>.
\<close>

record locals =
  keyread :: bool
  key_l :: bytes
  salt_l :: bytes
  fp_l :: bytes
  have_fp :: bool

definition blob_dispatch ::
  "env \<Rightarrow> bytes option \<Rightarrow> sxf_mode \<Rightarrow> locals \<Rightarrow> world \<Rightarrow> (error + locals) \<times> world" where
  "blob_dispatch ev cfgdata mode l w =
     (case cfgdata of
        None \<Rightarrow> (Inr l, w)
      | Some cfg \<Rightarrow>
          if length cfg = SALT_SIZE then
            (let w1 = NOTICE ''File will be processed with provided password'' w;
                 l1 = l\<lparr>salt_l := take SALT_SIZE cfg\<rparr> in
             case getpassword_loop ev (mode = SXF_MODE_UPLOAD) mode (key_l l1) (salt_l l1) w1 of
               ((ret, K), w2) \<Rightarrow>
                 if ret \<noteq> 0 then (Inl PasswordAbort, w2)
                 else (Inr (l1\<lparr>key_l := K, keyread := True\<rparr>), w2))
          else if length cfg = SALT_SIZE + 1 then
            (Inr (l\<lparr>salt_l := take SALT_SIZE cfg\<rparr>), w)
          else if length cfg = SALT_SIZE + FP_SIZE then
            (Inr (l\<lparr>salt_l := take SALT_SIZE cfg,
                     fp_l := take FP_SIZE (drop SALT_SIZE cfg),
                     have_fp := True\<rparr>), w)
          else (Inl ConfigurationError, ERROR ''Invalid configuration data'' w))"

subsection \<open>The key file\<close>

text \<open>
  The attempt to write the derived key to the key file. Whatever fails, the function
  goes on: there is no \<open>return\<close> in this part of the source.
\<close>

definition persist_key :: "env \<Rightarrow> string \<Rightarrow> bytes \<Rightarrow> world \<Rightarrow> world" where
  "persist_key ev kf K w =
     (if \<not> io_ok ev Io_key_open_wr
      then WARN ''Can't open file for writing -- continuing without key file'' w
      else
        let w1 = w\<lparr>files := (files w)(kf \<mapsto> [])\<rparr> in
        if \<not> io_ok ev Io_key_write
        then WARN ''Can't write key data to file -- continuing without key file''
               (unlink ev Io_key_unlink kf w1)
        else
          let w2 = w1\<lparr>files := (files w1)(kf \<mapsto> take KEY_SIZE K)\<rparr> in
          if \<not> io_ok ev Io_key_close
          then WARN ''Can't close file -- continuing without key file''
                 (unlink ev Io_key_unlink kf w2)
          else w2)"

text \<open>The part \<open>if(!keyread) { ... }\<close>; the result is the key and the path of the key file.\<close>

definition acquire_key ::
  "env \<Rightarrow> string \<Rightarrow> sxf_mode \<Rightarrow> locals \<Rightarrow> world \<Rightarrow> (error + bytes \<times> string option) \<times> world" where
  "acquire_key ev cfgdir mode l w =
     (if keyread l then (Inr (key_l l, None), w)
      else if \<not> malloc_ok ev Alloc_keyfile then (Inl Oom, ERROR ''OOM'' w)
      else
        let kf = cfgdir @ ''/key'';
            opened = (files w kf \<noteq> None \<and> io_ok ev Io_key_open_rd);
            w1 = (if opened then w
                  else if files w kf = None then
                    (if have_fp l
                     then NOTICE ''The local key file doesn't exist and will be created now'' w
                     else NOTICE ''First upload to the encrypted volume, set the volume password now'' w)
                  else WARN ''Can't open key file -- attempt to recreate it'' w);
            content = (case files w kf of None \<Rightarrow> [] | Some c \<Rightarrow> c);
            readok = (opened \<and> io_ok ev Io_key_read \<and> length content \<ge> KEY_SIZE);
            w2 = (if opened \<and> \<not> readok
                  then WARN ''Can't read key file -- new key file will be created'' w1
                  else w1) in
        if readok then (Inr (take KEY_SIZE content, Some kf), w2)
        else
          (case getpassword_loop ev (if have_fp l then False else mode = SXF_MODE_UPLOAD)
                  mode (if opened \<and> io_ok ev Io_key_read
                        then memcpy (key_l l) 0 (take KEY_SIZE content) else key_l l)
                  (salt_l l) w2 of
             ((ret, K), w3) \<Rightarrow>
               if ret \<noteq> 0 then (Inl PasswordAbort, w3)
               else if have_fp l then
                 (case keyfp ev K (Some (fp_l l)) w3 of
                    ((r, new_fp), w4) \<Rightarrow>
                      if r \<noteq> 0 then (Inl FingerprintFailure, w4)
                      else (Inr (K, Some kf), persist_key ev kf K w4))
               else
                 (case keyfp ev K None w3 of
                    ((r, new_fp), w4) \<Rightarrow>
                      if r \<noteq> 0 then (Inl FingerprintFailure, w4)
                      else
                        let mdata = take SALT_SIZE (salt_l l) @ new_fp in
                        if \<not> meta_setval_ok ev
                        then (Inl MetaFailure, ERROR ''Failed to set custom meta'' w4)
                        else
                          (Inr (K, Some kf),
                           persist_key ev kf K
                             (w4\<lparr>custom_meta := (custom_meta w4)(''aes256_fp'' \<mapsto> mdata)\<rparr>)))))"

subsection \<open>The context\<close>

text \<open>\<open>calloc(1, sizeof(struct aes256_ctx))\<close>: every field is zero.\<close>

definition calloc_aes256_ctx :: aes256_ctx where
  "calloc_aes256_ctx =
     \<lparr>ectx = \<lparr>cipher_key = [], cipher_iv = [], buf = [], final_used = False, final = []\<rparr>,
      dctx = \<lparr>cipher_key = [], cipher_iv = [], buf = [], final_used = False, final = []\<rparr>,
      ivhash = \<lparr>hmd = None, hkey = [], hdata = []\<rparr>,
      hmac = \<lparr>hmd = None, hkey = [], hdata = []\<rparr>,
      key = replicate KEY_SIZE 0,
      ivmac = replicate EVP_MAX_MD_SIZE 0,
      inbytes = 0, blkbytes = 0, data_in = 0, data_out_left = 0, data_end = False,
      inbuf = replicate BUF_SIZE 0,
      blk = replicate BUF_SIZE 0,
      keyfile = None,
      decrypt_err = False\<rparr>"

text \<open>
  The \<open>n\<close> bytes at the address \<open>actx->key + off\<close>. The struct declares
  \<open>unsigned char key[KEY_SIZE], ivmac[EVP_MAX_MD_SIZE];\<close>: the array \<open>ivmac\<close> follows
  \<open>key\<close> at once (arrays of \<open>unsigned char\<close> need no padding), so an offset of 64 or more
  addresses \<open>ivmac\<close>.
\<close>

definition key_plus :: "aes256_ctx \<Rightarrow> nat \<Rightarrow> nat \<Rightarrow> bytes" where
  "key_plus actx off n = take n (drop off (key actx @ ivmac actx))"

text \<open>From \<open>calloc\<close> to the end of the function.\<close>

definition init_contexts ::
  "env \<Rightarrow> bytes \<Rightarrow> string option \<Rightarrow> sxf_mode \<Rightarrow> world \<Rightarrow> (error + aes256_ctx) \<times> world" where
  "init_contexts ev K kf mode w =
     (if \<not> malloc_ok ev Alloc_actx then (Inl Oom, ERROR ''OOM'' w)
      else
        let a0 = calloc_aes256_ctx\<lparr>keyfile := kf\<rparr>;
            a1 = a0\<lparr>key := memcpy (key a0) 0 (take KEY_SIZE K)\<rparr>;
            a2 = a1\<lparr>ivhash := HMAC_CTX_init, hmac := HMAC_CTX_init\<rparr> in
        if \<not> lib_ok (libcrypto ev) Prepare_HMAC_Init_ivhash
        then (Inl (CryptoFailure Prepare_HMAC_Init_ivhash),
              ERROR ''Can't initialize HMAC context(1)'' w)
        else
          let a3 = a2\<lparr>ivhash := HMAC_Init_ex (ivhash a2) (take (KEY_SIZE div 2) (key a2)) EVP_sha1\<rparr> in
          if \<not> lib_ok (libcrypto ev) Prepare_HMAC_Init_hmac
          then (Inl (CryptoFailure Prepare_HMAC_Init_hmac),
                ERROR ''Can't initialize HMAC context(2)'' w)
          else
            let a4 = a3\<lparr>hmac := HMAC_Init_ex (hmac a3) (take (KEY_SIZE div 2) (key a3)) EVP_sha512\<rparr> in
            if mode = SXF_MODE_UPLOAD then
              (let a5 = a4\<lparr>ectx := EVP_CIPHER_CTX_init\<rparr> in
               if \<not> lib_ok (libcrypto ev) Prepare_EncryptInit
               then (Inl (CryptoFailure Prepare_EncryptInit),
                     ERROR ''Can't initialize encryption context'' w)
               else
                 (Inr (a5\<lparr>ectx := EVP_CipherInit_key (ectx a5) (key_plus a5 KEY_SIZE 32),
                          ivmac := replicate EVP_MAX_MD_SIZE 0\<rparr>), w))
            else
              (let a5 = a4\<lparr>dctx := EVP_CIPHER_CTX_init\<rparr> in
               if \<not> lib_ok (libcrypto ev) Prepare_DecryptInit
               then (Inl (CryptoFailure Prepare_DecryptInit),
                     ERROR ''Can't initialize decryption context'' w)
               else
                 (Inr (a5\<lparr>dctx := EVP_CipherInit_key (dctx a5) (key_plus a5 KEY_SIZE 32),
                          ivmac := replicate EVP_MAX_MD_SIZE 0\<rparr>), w)))"

subsection \<open>The function\<close>

text \<open>
  \<open>cfgdata\<close> is \<open>None\<close> for a NULL pointer; \<open>cfgdata_len\<close> is the length of the blob. The
  result is \<open>*ctx\<close> (\<open>Inl\<close> for the return of \<open>-1\<close>) and the world after the call.
\<close>

definition aes256_data_prepare ::
  "env \<Rightarrow> string \<Rightarrow> bytes option \<Rightarrow> sxf_mode \<Rightarrow> world \<Rightarrow> (error + aes256_ctx) \<times> world" where
  "aes256_data_prepare ev cfgdir cfgdata mode w =
     (if version_mismatch ev
      then (Inl LibraryMismatch, ERROR ''OpenSSL library version mismatch'' w)
      else
        let fromfp = (case cfgdata of None \<Rightarrow> True | Some cfg \<Rightarrow> length cfg = SALT_SIZE + 1);
            mdata = (if fromfp then custom_meta w ''aes256_fp'' else None);
            cfgdata1 = (case mdata of None \<Rightarrow> cfgdata | Some md \<Rightarrow> Some md);
            l0 = \<lparr>keyread = False, key_l = stack_key ev, salt_l = stack_salt ev,
                  fp_l = stack_fp ev, have_fp = False\<rparr> in
        (case (case mdata of
                 None \<Rightarrow> (Inr (), w)
               | Some md \<Rightarrow> custfp_reconcile ev cfgdir md w) of
           (Inl e, w1) \<Rightarrow> (Inl e, w1)
         | (Inr u, w1) \<Rightarrow>
             (case blob_dispatch ev cfgdata1 mode l0 w1 of
                (Inl e, w2) \<Rightarrow> (Inl e, w2)
              | (Inr l, w2) \<Rightarrow>
                  (case acquire_key ev cfgdir mode l w2 of
                     (Inl e, w3) \<Rightarrow> (Inl e, w3)
                   | (Inr (K, kf), w3) \<Rightarrow> init_contexts ev K kf mode w3))))"

section \<open>What the properties below assume of the library\<close>

text \<open>
  Every tested call succeeds, HMAC-SHA-1 yields 20 bytes and HMAC-SHA-512 yields 64, and
  the block cipher maps 16-byte blocks to 16-byte blocks, decryption undoing encryption
  under the same key.
\<close>

definition openssl_ok :: "crypto \<Rightarrow> bool" where
  "openssl_ok cr \<longleftrightarrow>
     (\<forall>c. lib_ok cr c) \<and>
     (\<forall>k d. length (HMAC cr EVP_sha1 k d) = 20) \<and>
     (\<forall>k d. length (HMAC cr EVP_sha512 k d) = 64) \<and>
     (\<forall>k b. length b = 16 \<longrightarrow>
        length (AES_encrypt cr k b) = 16 \<and> AES_decrypt cr k (AES_encrypt cr k b) = b)"

text \<open>An instance, with which the assumptions of the theorems are shown to be satisfiable.\<close>

definition toy_crypto :: crypto where
  "toy_crypto =
     \<lparr>HMAC = (\<lambda>m k d. take (case m of EVP_sha1 \<Rightarrow> 20 | EVP_sha512 \<Rightarrow> 64) (d @ k @ replicate 64 0)),
      AES_encrypt = (\<lambda>k b. map (\<lambda>x. x + hd (k @ [1])) b),
      AES_decrypt = (\<lambda>k b. map (\<lambda>x. x - hd (k @ [1])) b),
      lib_ok = (\<lambda>c. True)\<rparr>"

definition toy_env :: env where
  "toy_env =
     \<lparr>libcrypto = toy_crypto,
      SHA512 = (\<lambda>d. take 64 (d @ replicate 64 0)),
      SHA256 = (\<lambda>d. take 32 (d @ replicate 32 0)),
      sxi_derive_key = (\<lambda>pass salt. Some (''$2a$14$'' @ pass)),
      sxi_bin2hex = (\<lambda>d. replicate (2 * length d) (CHR ''0'')),
      RAND_pseudo_bytes = replicate 16 9,
      SSLeay = 0x1000207f,
      SSLEAY_VERSION_NUMBER = 0x1000207f,
      malloc_ok = (\<lambda>a. True),
      io_ok = (\<lambda>c. True),
      meta_setval_ok = True,
      stack_key = replicate 64 0xAA,
      stack_salt = replicate 16 0xBB,
      stack_fp = replicate 80 0xCC,
      stack_after_custfp = []\<rparr>"

section \<open>The wire format as functions of the keys\<close>

text \<open>
  One cipher run of the filter: \<open>Init\<close> with the IV, one \<open>Update\<close>, then \<open>Final\<close>, on a
  context holding the key \<open>k\<close>.
\<close>

definition cbc_pkcs_encrypt :: "crypto \<Rightarrow> bytes \<Rightarrow> bytes \<Rightarrow> bytes \<Rightarrow> bytes" where
  "cbc_pkcs_encrypt cr k iv pt =
     (let c0 = \<lparr>cipher_key = k, cipher_iv = iv, buf = [], final_used = False, final = []\<rparr>;
          (upd, c1) = EVP_EncryptUpdate cr c0 pt
      in upd @ EVP_EncryptFinal_ex cr c1)"

definition cbc_pkcs_decrypt :: "crypto \<Rightarrow> bytes \<Rightarrow> bytes \<Rightarrow> bytes \<Rightarrow> bytes option" where
  "cbc_pkcs_decrypt cr k iv ct =
     (let c0 = \<lparr>cipher_key = k, cipher_iv = iv, buf = [], final_used = False, final = []\<rparr>;
          (upd, c1) = EVP_DecryptUpdate cr c0 ct
      in map_option (\<lambda>fin. upd @ fin) (EVP_DecryptFinal_ex c1))"

text \<open>
  The wire block of the plaintext \<open>pt\<close> under the HMAC key \<open>km\<close>, the cipher key \<open>ke\<close>
  and the chaining state \<open>v\<close>, and the chaining state after it.
\<close>

definition seal_block :: "crypto \<Rightarrow> bytes \<Rightarrow> bytes \<Rightarrow> bytes \<Rightarrow> bytes \<Rightarrow> bytes" where
  "seal_block cr km ke v pt =
     (let iv = take IV_SIZE (HMAC cr EVP_sha1 km (v @ pt));
          body = iv @ cbc_pkcs_encrypt cr ke iv pt
      in body @ take MAC_SIZE (HMAC cr EVP_sha512 km body))"

definition chain_ivmac :: "crypto \<Rightarrow> bytes \<Rightarrow> bytes \<Rightarrow> bytes \<Rightarrow> bytes" where
  "chain_ivmac cr km v pt = memcpy v 0 (HMAC cr EVP_sha1 km (v @ pt))"

text \<open>What the decrypt path makes of a staged wire block.\<close>

definition open_block :: "crypto \<Rightarrow> bytes \<Rightarrow> bytes \<Rightarrow> bytes \<Rightarrow> error + bytes" where
  "open_block cr km ke wire =
     (if length wire < IV_SIZE + MAC_SIZE then Inl IncompleteData
      else
        let body = take (length wire - MAC_SIZE) wire in
        if take MAC_SIZE (HMAC cr EVP_sha512 km body) \<noteq> drop (length wire - MAC_SIZE) wire
        then Inl AuthenticationFailure
        else
          (case cbc_pkcs_decrypt cr ke (take IV_SIZE body) (drop IV_SIZE body) of
             None \<Rightarrow> Inl AuthenticationFailure
           | Some pt \<Rightarrow> Inr pt))"

section \<open>The host's loop around aes256_data_process\<close>

text \<open>
  Modelled from the spec: the host that drives \<open>process\<close> is not part of the source. The
  spec (4.5) lets it offer a buffer with the action \<open>Normal\<close>, or \<open>DataEnd\<close> for the last
  one, and has it call again with the same buffer while the action that comes back is
  \<open>Repeat\<close>. \<open>host_chunk\<close> is that loop for one buffer, collecting the bytes written; it has
  no value (\<open>None\<close>) when the loop does not end. \<open>host_stream\<close> offers a list of buffers,
  the last one with \<open>DataEnd\<close>. \<open>past\<close> is the memory that follows the host's buffers.
\<close>

partial_function (option) host_chunk ::
  "crypto \<Rightarrow> sxf_mode \<Rightarrow> nat \<Rightarrow> bytes \<Rightarrow> (nat \<Rightarrow> byte) \<Rightarrow> aes256_ctx \<Rightarrow> sxf_action \<Rightarrow> bytes
     \<Rightarrow> ((error + bytes) \<times> aes256_ctx \<times> sxf_action) option" where
  "host_chunk cr mode outsize inp past actx action acc =
     (case aes256_data_process cr actx inp past outsize mode action of
        (Inl e, a', act') \<Rightarrow> Some (Inl e, a', act')
      | (Inr out, a', act') \<Rightarrow>
          if act' = SXF_ACTION_REPEAT
          then host_chunk cr mode outsize inp past a' SXF_ACTION_REPEAT (acc @ out)
          else Some (Inr (acc @ out), a', act'))"

fun host_stream ::
  "crypto \<Rightarrow> sxf_mode \<Rightarrow> nat \<Rightarrow> (nat \<Rightarrow> byte) \<Rightarrow> aes256_ctx \<Rightarrow> bytes list
     \<Rightarrow> ((error + bytes) \<times> aes256_ctx) option" where
  "host_stream cr mode outsize past actx [] = Some (Inr [], actx)"
| "host_stream cr mode outsize past actx [c] =
     (case host_chunk cr mode outsize c past actx SXF_ACTION_DATA_END [] of
        None \<Rightarrow> None
      | Some (r, a', act') \<Rightarrow> Some (r, a'))"
| "host_stream cr mode outsize past actx (c # c' # cs) =
     (case host_chunk cr mode outsize c past actx SXF_ACTION_NORMAL [] of
        None \<Rightarrow> None
      | Some (Inl e, a', act') \<Rightarrow> Some (Inl e, a')
      | Some (Inr out, a', act') \<Rightarrow>
          (case host_stream cr mode outsize past a' (c' # cs) of
             None \<Rightarrow> None
           | Some (Inl e, a'') \<Rightarrow> Some (Inl e, a'')
           | Some (Inr out', a'') \<Rightarrow> Some (Inr (out @ out'), a'')))"

section \<open>Contexts between the steps of a stream\<close>

text \<open>
  The facts about a context that the steps of a stream keep: the sizes of the arrays, the
  digests and the keys of the HMAC contexts, and the key of the cipher context of the mode.
\<close>

definition keyed :: "sxf_mode \<Rightarrow> bytes \<Rightarrow> bytes \<Rightarrow> aes256_ctx \<Rightarrow> bool" where
  "keyed md km ke a \<longleftrightarrow>
     length (inbuf a) = BUF_SIZE \<and> length (blk a) = BUF_SIZE \<and>
     length (ivmac a) = EVP_MAX_MD_SIZE \<and>
     hmd (ivhash a) = Some EVP_sha1 \<and> hmd (hmac a) = Some EVP_sha512 \<and>
     hkey (ivhash a) = km \<and> hkey (hmac a) = km \<and>
     cipher_key (if md = SXF_MODE_UPLOAD then ectx a else dctx a) = ke"

text \<open>The size of a block of input: \<open>bsize\<close> in \<open>aes256_data_process\<close>.\<close>

definition bsize_of :: "sxf_mode \<Rightarrow> nat" where
  "bsize_of md = (if md = SXF_MODE_UPLOAD then FILTER_BLOCK_SIZE else BUF_SIZE)"

text \<open>
  A context with the bytes \<open>st\<close> staged in \<open>in\<close>, the chaining state \<open>v\<close>, the position \<open>d\<close>
  in the caller's buffer, and no output pending.
\<close>

definition staged ::
  "sxf_mode \<Rightarrow> bytes \<Rightarrow> bytes \<Rightarrow> aes256_ctx \<Rightarrow> bytes \<Rightarrow> bytes \<Rightarrow> nat \<Rightarrow> bool \<Rightarrow> bool" where
  "staged md km ke a st v d e \<longleftrightarrow>
     keyed md km ke a \<and> inbytes a = length st \<and> take (length st) (inbuf a) = st \<and>
     ivmac a = v \<and> data_in a = d \<and> data_end a = e \<and> data_out_left a = 0 \<and> blkbytes a = 0"

text \<open>
  A context whose array \<open>blk\<close> holds the output block \<open>ob\<close>, of which the last \<open>left\<close>
  bytes are still to be handed over.
\<close>

definition pending ::
  "sxf_mode \<Rightarrow> bytes \<Rightarrow> bytes \<Rightarrow> aes256_ctx \<Rightarrow> bytes \<Rightarrow> nat \<Rightarrow> bytes \<Rightarrow> nat \<Rightarrow> bool \<Rightarrow> bool" where
  "pending md km ke a ob left v d e \<longleftrightarrow>
     keyed md km ke a \<and> blkbytes a = length ob \<and> take (length ob) (blk a) = ob \<and>
     data_out_left a = left \<and> left \<le> length ob \<and>
     ivmac a = v \<and> data_in a = d \<and> data_end a = e"

text \<open>
  What one block of staged input becomes, as a function of the keys and the chaining
  state: the output block and the next chaining state.
\<close>

definition block_out ::
  "crypto \<Rightarrow> sxf_mode \<Rightarrow> bytes \<Rightarrow> bytes \<Rightarrow> bytes \<Rightarrow> bytes \<Rightarrow> error + bytes \<times> bytes" where
  "block_out cr md km ke v st =
     (if md = SXF_MODE_UPLOAD
      then Inr (seal_block cr km ke v st, chain_ivmac cr km v st)
      else (case open_block cr km ke st of Inl e \<Rightarrow> Inl e | Inr pt \<Rightarrow> Inr (pt, v)))"

text \<open>
  What a stream of input becomes: the blocks of \<open>bsize\<close> bytes one after the other, and
  with \<open>fin\<close> also the shorter last one. The result is the output, the bytes left staged
  and the chaining state.
\<close>

function stream_out ::
  "crypto \<Rightarrow> sxf_mode \<Rightarrow> bytes \<Rightarrow> bytes \<Rightarrow> bool \<Rightarrow> bytes \<Rightarrow> bytes
     \<Rightarrow> error + bytes \<times> bytes \<times> bytes" where
  "stream_out cr md km ke fin v X =
     (if length X \<ge> bsize_of md \<or> (fin \<and> X \<noteq> []) then
        (case block_out cr md km ke v (take (bsize_of md) X) of
           Inl e \<Rightarrow> Inl e
         | Inr (ob, v') \<Rightarrow>
             (case stream_out cr md km ke fin v' (drop (bsize_of md) X) of
                Inl e \<Rightarrow> Inl e
              | Inr (obs, l, v'') \<Rightarrow> Inr (ob @ obs, l, v'')))
      else Inr ([], X, v))"
  by pat_completeness auto
termination
  by (relation "measure (\<lambda>(cr, md, km, ke, fin, v, X). length X)") (auto simp: bsize_of_def)

declare stream_out.simps [simp del]

section \<open>Example inputs\<close>

text \<open>
  A key whose halves differ, a configuration directory holding that key in its key file,
  and the contexts \<open>aes256_data_prepare\<close> makes there for the 17-byte blob.
\<close>

definition example_key :: bytes where
  "example_key = replicate 32 1 @ replicate 32 2"

definition example_world :: world where
  "example_world =
     \<lparr>files = [''cfg/key'' \<mapsto> example_key], custom_meta = Map.empty, inputs = [], messages = []\<rparr>"

definition example_blob :: bytes where
  "example_blob = replicate 16 5 @ [1]"

definition example_ctx :: "sxf_mode \<Rightarrow> aes256_ctx" where
  "example_ctx mode =
     (case fst (aes256_data_prepare toy_env ''cfg'' (Some example_blob) mode example_world) of
        Inl e \<Rightarrow> calloc_aes256_ctx
      | Inr a \<Rightarrow> a)"

text \<open>The ten bytes of the spec's scenario E1, and the upload context that has staged them.\<close>

definition example_plain :: bytes where
  "example_plain = [0, 1, 2, 3, 4, 5, 6, 7, 8, 9]"

definition example_staged_ctx :: aes256_ctx where
  "example_staged_ctx =
     ingest_input (example_ctx SXF_MODE_UPLOAD) example_plain (\<lambda>i. 0) FILTER_BLOCK_SIZE"

text \<open>A wire block of 64 bytes whose tag is wrong: 63 zero bytes and a last byte of 1.\<close>

definition example_bad_wire :: bytes where
  "example_bad_wire = replicate 63 0 @ [1]"

text \<open>
  A configuration directory without files, a volume without metadata, and a user who
  types the same password twice.
\<close>

definition example_fresh_world :: world where
  "example_fresh_world =
     \<lparr>files = Map.empty, custom_meta = Map.empty,
      inputs = [Some ''password1'', Some ''password1''], messages = []\<rparr>"

text \<open>
  A configuration directory left by a session under an old password: the file \<open>custfp\<close>
  holds the old fingerprint and the key file the old key. The metadata of the volume
  holds the new fingerprint (salt, salt of the fingerprint, digest), and the user types
  the new password.
\<close>

definition example_old_fp :: bytes where
  "example_old_fp = replicate 96 1"

definition example_new_fp :: bytes where
  "example_new_fp =
     replicate 16 5 @ replicate 16 9 @
     take 64 (map of_char (''$2a$14$'' @ replicate 64 (CHR ''0'')) @ replicate 64 0)"

definition example_changed_world :: world where
  "example_changed_world =
     \<lparr>files = [''cfg/custfp'' \<mapsto> example_old_fp, ''cfg/key'' \<mapsto> example_key],
      custom_meta = [''aes256_fp'' \<mapsto> example_new_fp],
      inputs = [Some ''password2''], messages = []\<rparr>"


section \<open>Sequences of calls\<close>

text \<open>
  The context after a list of calls of \<open>aes256_data_process\<close>, each with its input
  buffer, the memory that follows it, the size of its output buffer and its action,
  whatever they return.
\<close>

fun process_calls ::
  "crypto \<Rightarrow> sxf_mode \<Rightarrow> aes256_ctx \<Rightarrow> (bytes \<times> (nat \<Rightarrow> byte) \<times> nat \<times> sxf_action) list
     \<Rightarrow> aes256_ctx" where
  "process_calls cr md a [] = a"
| "process_calls cr md a ((inp, past, outsize, act) # calls) =
     process_calls cr md (fst (snd (aes256_data_process cr a inp past outsize md act))) calls"

text \<open>
  The chaining state of a context keyed with \<open>km\<close>: 64 bytes of which the last 44 are
  zero, and an HMAC-SHA-1 context for it.
\<close>

definition iv_chain :: "bytes \<Rightarrow> aes256_ctx \<Rightarrow> bool" where
  "iv_chain km a \<longleftrightarrow>
     length (ivmac a) = EVP_MAX_MD_SIZE \<and> drop 20 (ivmac a) = replicate 44 0 \<and>
     hmd (ivhash a) = Some EVP_sha1 \<and> hkey (ivhash a) = km"

section \<open>Worlds that differ in the key file only\<close>

text \<open>
  Two worlds with the same metadata, the same answers left, the same messages but for the
  warnings, and the same files but for the file \<open>kf\<close>.
\<close>

definition same_but_key_cache :: "string \<Rightarrow> world \<Rightarrow> world \<Rightarrow> bool" where
  "same_but_key_cache kf w' w \<longleftrightarrow>
     custom_meta w' = custom_meta w \<and> inputs w' = inputs w \<and>
     filter (\<lambda>m. fst m \<noteq> SX_LOG_WARNING) (messages w')
       = filter (\<lambda>m. fst m \<noteq> SX_LOG_WARNING) (messages w) \<and>
     (\<forall>p. p \<noteq> kf \<longrightarrow> files w' p = files w p)"

section \<open>Lists, blocks and CBC\<close>

lemma length_memcpy [simp]:
  "off + length src \<le> length dst \<Longrightarrow> length (memcpy dst off src) = length dst"
  by (simp add: memcpy_def)

lemma take_memcpy_upto:
  "off \<le> length dst \<Longrightarrow> take (off + length src) (memcpy dst off src) = take off dst @ src"
  by (simp add: memcpy_def)

lemma take_memcpy_before:
  "n \<le> off \<Longrightarrow> off \<le> length dst \<Longrightarrow> take n (memcpy dst off src) = take n dst"
  by (simp add: memcpy_def min_def)

lemma drop_memcpy_after:
  "off + length src \<le> n \<Longrightarrow> off + length src \<le> length dst \<Longrightarrow> drop n (memcpy dst off src) = drop n dst"
  by (simp add: memcpy_def)

lemma blocks_of_Nil [simp]: "blocks_of n [] = []"
  by (simp add: blocks_of.simps)

lemma blocks_of_step:
  "0 < n \<Longrightarrow> xs \<noteq> [] \<Longrightarrow> blocks_of n xs = take n xs # blocks_of n (drop n xs)"
  by (subst blocks_of.simps) simp

lemma blocks_of_append:
  "0 < n \<Longrightarrow> length xs = k * n \<Longrightarrow> blocks_of n (xs @ ys) = blocks_of n xs @ blocks_of n ys"
proof (induction k arbitrary: xs)
  case 0
  then show ?case by simp
next
  case (Suc k)
  then have len: "length xs = n + k * n" by simp
  with Suc.prems have ne: "xs \<noteq> []" by auto
  have "blocks_of n (xs @ ys) = take n (xs @ ys) # blocks_of n (drop n (xs @ ys))"
    using Suc.prems ne by (simp add: blocks_of_step)
  also have "\<dots> = take n xs # blocks_of n (drop n xs @ ys)"
    using len by simp
  also have "\<dots> = take n xs # blocks_of n (drop n xs) @ blocks_of n ys"
    using Suc.IH [of "drop n xs"] Suc.prems len by simp
  also have "\<dots> = blocks_of n xs @ blocks_of n ys"
    using Suc.prems ne by (simp add: blocks_of_step)
  finally show ?case .
qed

lemma blocks_of_exact:
  "0 < n \<Longrightarrow> length xs = k * n \<Longrightarrow>
   length (blocks_of n xs) = k \<and> (\<forall>b \<in> set (blocks_of n xs). length b = n) \<and> concat (blocks_of n xs) = xs"
proof (induction k arbitrary: xs)
  case 0
  then show ?case by simp
next
  case (Suc k)
  then have len: "length xs = n + k * n" by simp
  with Suc.prems have ne: "xs \<noteq> []" by auto
  have st: "blocks_of n xs = take n xs # blocks_of n (drop n xs)"
    using Suc.prems ne by (simp add: blocks_of_step)
  have "length (drop n xs) = k * n" using len by simp
  from Suc.IH [OF Suc.prems(1) this] show ?case
    using st len by simp
qed

lemma blocks_of_single: "0 < n \<Longrightarrow> length xs = n \<Longrightarrow> blocks_of n xs = [xs]"
  by (subst blocks_of.simps) auto

lemma map2_xor_cancel:
  "length (b :: bytes) = length iv \<Longrightarrow> map2 (XOR) (map2 (XOR) b iv) iv = b"
  by (induction b iv rule: list_induct2) (auto simp: xor.assoc)

lemma cbc_encrypt_length:
  "(\<forall>x. length x = 16 \<longrightarrow> length (E x) = 16) \<Longrightarrow> length iv = 16 \<Longrightarrow> (\<forall>b \<in> set bs. length b = 16)
   \<Longrightarrow> length (cbc_encrypt_blocks E iv bs) = length bs \<and> (\<forall>c \<in> set (cbc_encrypt_blocks E iv bs). length c = 16)"
proof (induction bs arbitrary: iv)
  case Nil
  then show ?case by simp
next
  case (Cons b bs)
  have "length (E (map2 (XOR) b iv)) = 16" using Cons.prems by simp
  from Cons.IH [OF Cons.prems(1) this] Cons.prems this show ?case
    by (auto simp: Let_def)
qed

lemma cbc_encrypt_append:
  "cbc_encrypt_blocks E iv (bs @ bs') =
     cbc_encrypt_blocks E iv bs @ cbc_encrypt_blocks E (last (iv # cbc_encrypt_blocks E iv bs)) bs'"
  by (induction bs arbitrary: iv) (auto simp: Let_def)

lemma cbc_roundtrip:
  "(\<forall>x. length x = 16 \<longrightarrow> length (E x) = 16 \<and> D (E x) = x) \<Longrightarrow> length iv = 16 \<Longrightarrow> (\<forall>b \<in> set bs. length b = 16)
   \<Longrightarrow> cbc_decrypt_blocks D iv (cbc_encrypt_blocks E iv bs) = bs"
proof (induction bs arbitrary: iv)
  case Nil
  then show ?case by simp
next
  case (Cons b bs)
  have l: "length (map2 (XOR) b iv) = 16" using Cons.prems by simp
  then have "length (E (map2 (XOR) b iv)) = 16" and "D (E (map2 (XOR) b iv)) = map2 (XOR) b iv"
    using Cons.prems(1) by blast+
  with Cons.IH [OF Cons.prems(1), of "E (map2 (XOR) b iv)"] Cons.prems show ?case
    by (simp add: Let_def map2_xor_cancel)
qed

lemma concat_length_16:
  "(\<forall>c \<in> set cs. length c = (16::nat)) \<Longrightarrow> length (concat cs) = 16 * length cs"
  by (induction cs) auto

lemma blocks_of_concat:
  "(\<forall>c \<in> set cs. length c = (16::nat)) \<Longrightarrow> blocks_of 16 (concat cs) = cs"
proof (induction cs)
  case Nil
  then show ?case by simp
next
  case (Cons c cs)
  then have "c @ concat cs \<noteq> []" by auto
  then have "blocks_of 16 (c @ concat cs) = take 16 (c @ concat cs) # blocks_of 16 (drop 16 (c @ concat cs))"
    by (simp add: blocks_of_step)
  with Cons show ?case by simp
qed

section \<open>The cipher runs of the filter\<close>

lemma toy_crypto_ok: "openssl_ok toy_crypto"
  by (auto simp: openssl_ok_def toy_crypto_def comp_def)

lemma xor_byte_eq_0: "(x::byte) XOR y = 0 \<longleftrightarrow> x = y"
  by (metis bit.xor_left_self xor.right_neutral)

lemma hmac_compare_fold:
  "length xs = length ys \<Longrightarrow>
   fold (\<lambda>(a, b) m. m OR (a XOR b)) (zip xs ys) (acc :: byte) = 0 \<longleftrightarrow> acc = 0 \<and> xs = ys"
proof (induction xs ys arbitrary: acc rule: list_induct2)
  case Nil
  then show ?case by simp
next
  case (Cons x xs y ys)
  have "acc OR (x XOR y) = 0 \<longleftrightarrow> acc = 0 \<and> x = y"
    by (simp add: or_eq_0_iff xor_byte_eq_0)
  with Cons show ?case by auto
qed

lemma hmac_compare_zero_iff:
  assumes "len \<le> length h1" "len \<le> length h2"
  shows "hmac_compare h1 h2 len = 0 \<longleftrightarrow> take len h1 = take len h2"
proof -
  have "length (take len h1) = length (take len h2)" using assms by simp
  from hmac_compare_fold [OF this, of 0] show ?thesis
    by (simp add: hmac_compare_def uint_0_iff)
qed

lemma evp_encrypt_run:
  "(case EVP_EncryptUpdate cr (EVP_CipherInit_iv c iv) pt of
      (upd, c1) \<Rightarrow> upd @ EVP_EncryptFinal_ex cr c1) = cbc_pkcs_encrypt cr (cipher_key c) iv pt"
  by (simp add: EVP_EncryptUpdate_def EVP_CipherInit_iv_def EVP_EncryptFinal_ex_def
      cbc_pkcs_encrypt_def Let_def)

lemma evp_decrypt_run:
  "(case EVP_DecryptUpdate cr (EVP_CipherInit_iv c iv) ct of
      (upd, c1) \<Rightarrow> map_option (\<lambda>fin. upd @ fin) (EVP_DecryptFinal_ex c1))
   = cbc_pkcs_decrypt cr (cipher_key c) iv ct"
  by (simp add: EVP_DecryptUpdate_def EVP_CipherInit_iv_def EVP_DecryptFinal_ex_def
      cbc_pkcs_decrypt_def Let_def)

lemma aes_length: "openssl_ok cr \<Longrightarrow> \<forall>x. length x = 16 \<longrightarrow> length (AES_encrypt cr k x) = 16"
  by (simp add: openssl_ok_def)

lemma aes_inverse:
  "openssl_ok cr \<Longrightarrow>
   \<forall>x. length x = 16 \<longrightarrow> length (AES_encrypt cr k x) = 16 \<and> AES_decrypt cr k (AES_encrypt cr k x) = x"
  by (simp add: openssl_ok_def)

lemma cbc_last_length:
  assumes "\<forall>x. length x = 16 \<longrightarrow> length (E x) = 16" "length iv = 16" "\<forall>b \<in> set bs. length b = 16"
  shows "length (last (iv # cbc_encrypt_blocks E iv bs)) = 16"
proof -
  from cbc_encrypt_length [OF assms] have "\<forall>c \<in> set (cbc_encrypt_blocks E iv bs). length c = 16" by blast
  with assms(2) have "\<forall>c \<in> set (iv # cbc_encrypt_blocks E iv bs). length c = 16" by simp
  moreover have "last (iv # cbc_encrypt_blocks E iv bs) \<in> set (iv # cbc_encrypt_blocks E iv bs)"
    by (rule last_in_set) simp
  ultimately show ?thesis by blast
qed

lemma div16_take: "length (take (length pt div 16 * 16) pt) = (length pt div 16) * 16"
  by simp

text \<open>The padded plaintext and its blocks.\<close>

lemma pad_blocks:
  fixes pt :: bytes
  defines "n \<equiv> (length pt div 16) * 16"
  defines "p \<equiv> 16 - length pt mod 16"
  shows "blocks_of 16 (pt @ replicate p x) = blocks_of 16 (take n pt) @ [drop n pt @ replicate p x]"
    and "length (drop n pt @ replicate p x) = 16"
    and "length (drop n pt) = length pt mod 16"
proof -
  have r: "length (drop n pt) = length pt mod 16"
    unfolding n_def by (simp add: minus_div_mult_eq_mod)
  then show "length (drop n pt) = length pt mod 16" .
  have lp: "length (drop n pt @ replicate p x) = 16"
    using r unfolding p_def by simp
  then show "length (drop n pt @ replicate p x) = 16" .
  have e: "take n pt @ (drop n pt @ replicate p x) = pt @ replicate p x" by simp
  have "blocks_of 16 (pt @ replicate p x) = blocks_of 16 (take n pt @ (drop n pt @ replicate p x))"
    by (simp only: e)
  also have "\<dots> = blocks_of 16 (take n pt) @ blocks_of 16 (drop n pt @ replicate p x)"
    by (rule blocks_of_append [where k = "length pt div 16"]) (simp_all add: n_def)
  also have "blocks_of 16 (drop n pt @ replicate p x) = [drop n pt @ replicate p x]"
    using lp by (simp add: blocks_of_single)
  finally show "blocks_of 16 (pt @ replicate p x) = blocks_of 16 (take n pt) @ [drop n pt @ replicate p x]" .
qed

lemma cbc_pkcs_encrypt_alt:
  "cbc_pkcs_encrypt cr k iv pt =
     concat (cbc_encrypt_blocks (AES_encrypt cr k) iv
       (blocks_of 16 (pt @ replicate (16 - length pt mod 16) (of_nat (16 - length pt mod 16)))))"
proof -
  have "16 - length (drop (length pt div 16 * 16) pt) = 16 - length pt mod 16"
    using pad_blocks(3) [of pt] by simp
  then show ?thesis
    by (simp add: cbc_pkcs_encrypt_def EVP_EncryptUpdate_def EVP_EncryptFinal_ex_def Let_def
        pad_blocks(1) cbc_encrypt_append del: of_nat_diff)
qed

lemma cbc_pkcs_encrypt_length:
  assumes "openssl_ok cr" "length iv = 16"
  shows "length (cbc_pkcs_encrypt cr k iv pt) = (length pt div 16) * 16 + 16"
proof -
  define p where "p = 16 - length pt mod 16"
  define x :: byte where "x = of_nat p"
  define padded where "padded = pt @ replicate p x"
  have "length padded = length pt + (16 - length pt mod 16)" by (simp add: padded_def p_def)
  also have "\<dots> = (length pt div 16 + 1) * 16"
    by presburger
  finally have lp: "length padded = (length pt div 16 + 1) * 16" .
  from blocks_of_exact [OF _ lp]
  have bs: "length (blocks_of 16 padded) = length pt div 16 + 1" "\<forall>b \<in> set (blocks_of 16 padded). length b = 16"
    by simp_all
  from cbc_encrypt_length [OF aes_length [OF assms(1)] assms(2) bs(2)]
  have cs: "length (cbc_encrypt_blocks (AES_encrypt cr k) iv (blocks_of 16 padded)) = length (blocks_of 16 padded)"
       "\<forall>c \<in> set (cbc_encrypt_blocks (AES_encrypt cr k) iv (blocks_of 16 padded)). length c = 16"
    by simp_all
  have "cbc_pkcs_encrypt cr k iv pt = concat (cbc_encrypt_blocks (AES_encrypt cr k) iv (blocks_of 16 padded))"
    by (simp only: cbc_pkcs_encrypt_alt padded_def p_def x_def)
  then show ?thesis
    using concat_length_16 [OF cs(2)] cs(1) bs(1) by simp
qed

lemma cbc_pkcs_roundtrip:
  assumes ok: "openssl_ok cr" and iv: "length iv = 16"
  shows "cbc_pkcs_decrypt cr k iv (cbc_pkcs_encrypt cr k iv pt) = Some pt"
proof -
  define n where "n = (length pt div 16) * 16"
  define p where "p = 16 - length pt mod 16"
  define x :: byte where "x = of_nat p"
  define padded where "padded = pt @ replicate p x"
  define bs where "bs = blocks_of 16 padded"
  define cs where "cs = cbc_encrypt_blocks (AES_encrypt cr k) iv bs"
  define ct where "ct = concat cs"
  have p_range: "1 \<le> p" "p \<le> 16" by (simp_all add: p_def)
  have ux: "unat x = p" using p_range by (simp add: x_def unat_of_nat)
  have "length padded = length pt + (16 - length pt mod 16)" by (simp add: padded_def p_def)
  also have "\<dots> = (length pt div 16 + 1) * 16"
    by presburger
  finally have lp: "length padded = (length pt div 16 + 1) * 16" .
  from blocks_of_exact [OF _ lp]
  have bs: "length bs = length pt div 16 + 1" "\<forall>b \<in> set bs. length b = 16" "concat bs = padded"
    by (simp_all add: bs_def)
  from cbc_encrypt_length [OF aes_length [OF ok] iv bs(2)]
  have cs: "length cs = length bs" "\<forall>c \<in> set cs. length c = 16" by (simp_all add: cs_def)
  have lct: "length ct = n + 16" using concat_length_16 [OF cs(2)] cs(1) bs(1) by (simp add: ct_def n_def)
  have enc: "cbc_pkcs_encrypt cr k iv pt = ct"
    by (simp only: cbc_pkcs_encrypt_alt ct_def cs_def bs_def padded_def p_def x_def)
  have blocks_ct: "blocks_of 16 ct = cs" unfolding ct_def by (rule blocks_of_concat [OF cs(2)])
  have dec_blocks: "cbc_decrypt_blocks (AES_decrypt cr k) iv cs = bs"
    unfolding cs_def by (rule cbc_roundtrip [OF aes_inverse [OF ok] iv bs(2)])
  have n16: "(n + 16) div 16 * 16 = n + 16" by (simp add: n_def)
  have ctne: "ct \<noteq> []" using lct by auto
  have nle: "n \<le> length pt" by (simp add: n_def)
  have ldrop: "length (drop n pt) = 16 - p"
    using pad_blocks(3) [of pt] by (simp add: n_def p_def)
  let ?c0 = "\<lparr>cipher_key = k, cipher_iv = iv, buf = [], final_used = False, final = []\<rparr>"
  define fin where "fin = drop n padded"
  have upd: "EVP_DecryptUpdate cr ?c0 ct =
      (take n padded, ?c0\<lparr>cipher_iv := last (iv # cs), buf := [], final_used := True, final := fin\<rparr>)"
    using ctne lct by (simp add: EVP_DecryptUpdate_def Let_def n16 blocks_ct dec_blocks bs(3) fin_def)
  have fin_eq: "fin = drop n pt @ replicate p x" using nle by (simp add: padded_def fin_def)
  have fin_len: "length fin = 16" using ldrop p_range by (simp add: fin_eq)
  have last_fin: "last fin = x" using p_range by (simp add: fin_eq)
  have drop_fin: "drop (16 - p) fin = replicate p x"
    using ldrop by (simp add: fin_eq)
  have take_fin: "take (16 - p) fin = drop n pt"
    using ldrop by (simp add: fin_eq)
  have fin_ne: "fin \<noteq> []" using fin_len by auto
  have final: "EVP_DecryptFinal_ex c = Some (drop n pt)"
    if "buf c = []" "final_used c" "final c = fin" for c
    using that fin_ne p_range
    by (simp add: EVP_DecryptFinal_ex_def Let_def last_fin ux drop_fin take_fin list_all_iff)
  have "take n padded = take n pt" using nle by (simp add: padded_def)
  then show ?thesis
    unfolding enc by (simp add: cbc_pkcs_decrypt_def upd final)
qed

section \<open>One block\<close>

lemma memcpy_chain4:
  assumes "length x1 + length x2 + length x3 + length x4 \<le> length b"
  shows "take (length x1 + length x2 + length x3 + length x4)
           (memcpy (memcpy (memcpy (memcpy b 0 x1) (length x1) x2) (length x1 + length x2) x3)
              (length x1 + length x2 + length x3) x4) = x1 @ x2 @ x3 @ x4"
    and "length (memcpy (memcpy (memcpy (memcpy b 0 x1) (length x1) x2) (length x1 + length x2) x3)
              (length x1 + length x2 + length x3) x4) = length b"
    and "take (length x1 + length x2 + length x3)
           (memcpy (memcpy (memcpy b 0 x1) (length x1) x2) (length x1 + length x2) x3) = x1 @ x2 @ x3"
  using assms by (simp_all add: memcpy_def)

lemma hmac_sizes:
  assumes "openssl_ok cr"
  shows "length (HMAC cr EVP_sha1 k d) = 20" "length (HMAC cr EVP_sha512 k d) = 64"
  using assms by (simp_all add: openssl_ok_def)

lemma lib_ok_all: "openssl_ok cr \<Longrightarrow> lib_ok cr c"
  by (simp add: openssl_ok_def)

lemma evp_update_key: "cipher_key (snd (EVP_EncryptUpdate cr c x)) = cipher_key c"
  by (simp add: EVP_EncryptUpdate_def Let_def)

lemma evp_dec_update_key: "cipher_key (snd (EVP_DecryptUpdate cr c x)) = cipher_key c"
  by (simp add: EVP_DecryptUpdate_def Let_def)

lemma encrypt_block_staged:
  assumes ok: "openssl_ok cr"
    and st: "staged SXF_MODE_UPLOAD km ke a st v d e"
    and len: "length st \<le> FILTER_BLOCK_SIZE"
  shows "\<exists>a'. encrypt_block cr a = (Inr (), a') \<and>
               pending SXF_MODE_UPLOAD km ke a' (seal_block cr km ke v st) 0 (chain_ivmac cr km v st) d e"
proof -
  define mac where "mac = HMAC cr EVP_sha1 km (v @ st)"
  define iv where "iv = take 16 mac"
  define c0 where "c0 = EVP_CipherInit_iv (ectx a) iv"
  obtain upd e1 where U: "EVP_EncryptUpdate cr c0 st = (upd, e1)" by fastforce
  define fin where "fin = EVP_EncryptFinal_ex cr e1"
  define body where "body = iv @ upd @ fin"
  define tag where "tag = take 32 (HMAC cr EVP_sha512 km body)"
  have k: "keyed SXF_MODE_UPLOAD km ke a" and f: "inbytes a = length st" "take (length st) (inbuf a) = st"
    "ivmac a = v" "data_in a = d" "data_end a = e" "data_out_left a = 0"
    using st by (simp_all add: staged_def)
  have kk: "length (inbuf a) = BUF_SIZE" "length (blk a) = BUF_SIZE" "length (ivmac a) = 64"
    "hmd (ivhash a) = Some EVP_sha1" "hmd (hmac a) = Some EVP_sha512"
    "hkey (ivhash a) = km" "hkey (hmac a) = km" "cipher_key (ectx a) = ke"
    using k by (simp_all add: keyed_def)
  have lmac: "length mac = 20" using hmac_sizes(1) [OF ok] by (simp add: mac_def)
  have liv: "length iv = 16" using lmac by (simp add: iv_def)
  have ct: "upd @ fin = cbc_pkcs_encrypt cr ke iv st"
    using evp_encrypt_run [of cr "ectx a" iv st] U by (simp add: c0_def fin_def kk)
  have lct: "length upd + length fin = (length st div 16) * 16 + 16"
    using cbc_pkcs_encrypt_length [OF ok liv, of ke st] ct by (metis length_append)
  have ltag: "length tag = 32" using hmac_sizes(2) [OF ok] by (simp add: tag_def)
  have fits: "length iv + length upd + length fin + length tag \<le> length (blk a)"
    using liv lct ltag len kk(2) by simp
  note ch = memcpy_chain4 [OF fits]
  have seal: "seal_block cr km ke v st = iv @ upd @ fin @ tag"
    unfolding seal_block_def Let_def mac_def [symmetric] iv_def [symmetric] ct [symmetric]
      tag_def body_def by simp
  have chain: "chain_ivmac cr km v st = memcpy v 0 mac"
    by (simp add: chain_ivmac_def mac_def)
  have lchain: "length (memcpy v 0 mac) = 64" using lmac kk(3) f(3) by (simp add: memcpy_def)
  define a' where "a' = snd (encrypt_block cr a)"
  have res: "encrypt_block cr a =
    (Inr (), a\<lparr>ivhash := HMAC_Update (HMAC_Update (HMAC_Init_reset (ivhash a)) v) st,
                ivmac := memcpy v 0 mac,
                blk := memcpy (memcpy (memcpy (memcpy (blk a) 0 iv) (length iv) upd)
                         (length iv + length upd) fin) (length iv + length upd + length fin) tag,
                ectx := e1,
                hmac := HMAC_Update (HMAC_Init_reset (hmac a)) body,
                blkbytes := length iv + length upd + length fin + length tag\<rparr>)"
    using lmac liv ltag ch(3) hmac_sizes(2) [OF ok]
    by (simp add: encrypt_block_def encrypt_iv_def encrypt_cbc_def encrypt_tag_def Let_def
        lib_ok_all [OF ok] f kk HMAC_Final_def HMAC_Update_def
        HMAC_Init_reset_def mac_def [symmetric] iv_def [symmetric] c0_def [symmetric] U
        fin_def [symmetric] body_def [symmetric] tag_def [symmetric] add.commute add.left_commute)
  have ke1: "cipher_key e1 = ke"
    using evp_update_key [of cr c0 st] U by (simp add: c0_def EVP_CipherInit_iv_def kk)
  show ?thesis
    unfolding res using ch(1,2) kk lchain f liv ltag ke1
    by (simp add: pending_def keyed_def seal chain HMAC_Update_def HMAC_Init_reset_def)
qed

lemma init_contexts_upload:
  assumes "length K = KEY_SIZE"
    and "init_contexts ev K kf SXF_MODE_UPLOAD w = (Inr a, w')"
  shows "staged SXF_MODE_UPLOAD (take 32 K) (replicate 32 0) a [] (replicate 64 0) 0 False"
    and "cipher_key (ectx a) = replicate 32 0" and "key a = K"
    and "hkey (ivhash a) = take 32 K" and "hkey (hmac a) = take 32 K"
  using assms
  by (auto simp: init_contexts_def Let_def staged_def keyed_def calloc_aes256_ctx_def memcpy_def
      HMAC_Init_ex_def HMAC_CTX_init_def EVP_CipherInit_key_def EVP_CIPHER_CTX_init_def key_plus_def
      split: if_splits)

lemma init_contexts_download:
  assumes "length K = KEY_SIZE"
    and "init_contexts ev K kf SXF_MODE_DOWNLOAD w = (Inr a, w')"
  shows "staged SXF_MODE_DOWNLOAD (take 32 K) (replicate 32 0) a [] (replicate 64 0) 0 False"
    and "cipher_key (dctx a) = replicate 32 0" and "key a = K"
    and "hkey (ivhash a) = take 32 K" and "hkey (hmac a) = take 32 K"
  using assms
  by (auto simp: init_contexts_def Let_def staged_def keyed_def calloc_aes256_ctx_def memcpy_def
      HMAC_Init_ex_def HMAC_CTX_init_def EVP_CipherInit_key_def EVP_CIPHER_CTX_init_def key_plus_def
      split: if_splits)

lemma uint_sub_le:
  assumes "y \<le> x" "x < 2 ^ 32"
  shows "uint_sub x y = x - y"
proof -
  have m: "x mod 2 ^ 32 = x" "y mod 2 ^ 32 = y" using assms by simp_all
  have e: "x + 2 ^ 32 - y = (x - y) + 2 ^ 32" using assms(1) by simp
  have l: "(x - y) mod 2 ^ 32 = x - y" using assms(2) by simp
  show ?thesis unfolding uint_sub_def m e mod_add_self2 l by (rule refl)
qed

lemma size_t_sub_le:
  assumes "y \<le> x" "x < 2 ^ 64"
  shows "size_t_sub x y = x - y"
proof -
  have m: "x mod 2 ^ 64 = x" "y mod 2 ^ 64 = y" using assms by simp_all
  have e: "x + 2 ^ 64 - y = (x - y) + 2 ^ 64" using assms(1) by simp
  have l: "(x - y) mod 2 ^ 64 = x - y" using assms(2) by simp
  show ?thesis unfolding size_t_sub_def m e mod_add_self2 l by (rule refl)
qed

lemma read_in_within:
  "off + n \<le> length inp \<Longrightarrow> read_in inp past off n = take n (drop off inp)"
  by (auto intro!: nth_equalityI simp: read_in_def)

lemma length_read_in: "length (read_in inp past off n) = n"
  by (simp add: read_in_def)

lemma ingest_staged:
  assumes "staged md km ke a st v d e" "d \<le> length inp" "length inp < 2 ^ 32"
    and "length st \<le> bsize_of md"
  shows "staged md km ke (ingest_input a inp past (bsize_of md))
           (st @ take (min (bsize_of md - length st) (length inp - d)) (drop d inp)) v
           (d + min (bsize_of md - length st) (length inp - d)) e"
proof -
  define n where "n = min (bsize_of md - length st) (length inp - d)"
  define chunk where "chunk = take n (drop d inp)"
  have lchunk: "length chunk = n" by (simp add: chunk_def n_def)
  have k: "keyed md km ke a" and f: "inbytes a = length st" "take (length st) (inbuf a) = st"
    "ivmac a = v" "data_in a = d" "data_end a = e" "data_out_left a = 0" "blkbytes a = 0"
    using assms(1) by (simp_all add: staged_def)
  have bs: "bsize_of md \<le> BUF_SIZE" by (simp add: bsize_of_def)
  have li: "length (inbuf a) = BUF_SIZE" using k by (simp add: keyed_def)
  have fits: "length st + n \<le> BUF_SIZE" using assms(4) bs by (simp add: n_def)
  have b32: "bsize_of md < 2 ^ 32" by (simp add: bsize_of_def)
  have room: "uint_sub (bsize_of md) (length st) = bsize_of md - length st"
    by (rule uint_sub_le [OF assms(4) b32])
  have i64: "length inp < 2 ^ 64" using assms(3) by simp
  have avail: "size_t_sub (length inp) d = length inp - d"
    by (rule size_t_sub_le [OF assms(2) i64])
  have av32: "u32 (length inp - d) = length inp - d" using assms(3) by (simp add: u32_def)
  have nle: "d + n \<le> length inp" using assms(2) by (simp add: n_def)
  have rd: "read_in inp past d n = chunk"
    unfolding chunk_def by (rule read_in_within [OF nle])
  have bytes: "(if bsize_of md - length st \<le> length inp - d then bsize_of md - length st
                else length inp - d) = n"
    by (simp add: n_def min_def)
  have un: "u32 (length st + n) = length st + n" using fits by (simp add: u32_def)
  have ing: "ingest_input a inp past (bsize_of md) =
      a\<lparr>inbuf := memcpy (inbuf a) (length st) chunk, data_in := u32 (d + n), inbytes := length st + n\<rparr>"
    unfolding ingest_input_def Let_def f room avail av32 bytes rd un by (rule refl)
  have u: "u32 (d + n) = d + n" using assms(2,3) by (simp add: u32_def n_def)
  have tk: "take (length st + n) (memcpy (inbuf a) (length st) chunk) = st @ chunk"
    using take_memcpy_upto [of "length st" "inbuf a" chunk] li fits f(2) by (simp add: lchunk)
  have ln: "length (memcpy (inbuf a) (length st) chunk) = BUF_SIZE"
    using li fits by (simp add: lchunk)
  show ?thesis
    unfolding n_def [symmetric] chunk_def [symmetric] ing u
    using k f tk ln by (auto simp: staged_def keyed_def lchunk)
qed

section \<open>The example inputs evaluated\<close>

lemma toy_version: "\<not> version_mismatch toy_env"
  by (simp add: version_mismatch_def toy_env_def)

lemma toy_env_fields:
  "libcrypto toy_env = toy_crypto" "malloc_ok toy_env al" "io_ok toy_env c" "meta_setval_ok toy_env"
  "stack_key toy_env = replicate 64 0xAA" "stack_salt toy_env = replicate 16 0xBB"
  "stack_fp toy_env = replicate 80 0xCC" "stack_after_custfp toy_env = []"
  "RAND_pseudo_bytes toy_env = replicate 16 9"
  "sxi_derive_key toy_env pass salt = Some (''$2a$14$'' @ pass)"
  "SHA512 toy_env d = take 64 (d @ replicate 64 0)"
  "SHA256 toy_env d = take 32 (d @ replicate 32 0)"
  "sxi_bin2hex toy_env d = replicate (2 * length d) (CHR ''0'')"
  by (simp_all add: toy_env_def)

lemma toy_lib_ok: "lib_ok toy_crypto c"
  by (simp add: toy_crypto_def)

lemma example_prepare:
  "aes256_data_prepare toy_env ''cfg'' (Some example_blob) mode example_world =
     init_contexts toy_env example_key (Some ''cfg/key'') mode example_world"
  by (simp add: aes256_data_prepare_def toy_version example_blob_def example_world_def
      blob_dispatch_def acquire_key_def example_key_def toy_env_fields Let_def)

lemma example_init:
  "\<exists>a. init_contexts toy_env example_key (Some ''cfg/key'') mode example_world = (Inr a, example_world)"
  by (simp add: init_contexts_def toy_env_fields toy_lib_ok Let_def)

lemma example_ctx_prepared:
  "aes256_data_prepare toy_env ''cfg'' (Some example_blob) mode example_world
     = (Inr (example_ctx mode), example_world)"
  using example_init [of mode] by (auto simp: example_ctx_def example_prepare)

lemma example_key_length: "length example_key = 64"
  by (simp add: example_key_def)

lemma example_ctx_staged:
  "staged mode (replicate 32 1) (replicate 32 0) (example_ctx mode) [] (replicate 64 0) 0 False"
proof (cases mode)
  case SXF_MODE_UPLOAD
  with init_contexts_upload(1) [OF example_key_length, of toy_env "Some ''cfg/key''" example_world
      "example_ctx mode" example_world]
  show ?thesis
    using example_ctx_prepared [of mode] by (simp add: example_prepare example_key_def)
next
  case SXF_MODE_DOWNLOAD
  with init_contexts_download(1) [OF example_key_length, of toy_env "Some ''cfg/key''" example_world
      "example_ctx mode" example_world]
  show ?thesis
    using example_ctx_prepared [of mode] by (simp add: example_prepare example_key_def)
qed

lemma example_plain_length: "length example_plain = 10"
  by (simp add: example_plain_def)

lemma example_staged:
  "staged SXF_MODE_UPLOAD (replicate 32 1) (replicate 32 0) example_staged_ctx example_plain
     (replicate 64 0) (length example_plain) False"
  using ingest_staged [OF example_ctx_staged [of SXF_MODE_UPLOAD], of example_plain]
  by (simp add: example_staged_ctx_def bsize_of_def example_plain_length)

lemma toy_hmac512:
  "HMAC toy_crypto EVP_sha512 k d = take 64 (d @ k @ replicate 64 0)"
  by (simp add: toy_crypto_def)

section \<open>The steps of aes256_data_process on staged and past pending contexts\<close>

lemma take_drop_within:
  "take n xs = ob \<Longrightarrow> k + j \<le> n \<Longrightarrow> take j (drop k xs) = take j (drop k ob)"
proof -
  assume a: "take n xs = ob" "k + j \<le> n"
  have "take j (drop k (take n xs)) = take j (drop k xs)"
    using a(2) by (simp add: drop_take min_def)
  with a(1) show ?thesis by simp
qed

lemma emit_pending:
  assumes "pending md km ke a ob 0 v d e"
  shows "length ob > m \<Longrightarrow>
           \<exists>a'. emit_block a insize m = (Inr (take m ob), a', SXF_ACTION_REPEAT) \<and>
                pending md km ke a' ob (length ob - m) v d e \<and> inbytes a' = 0"
    and "length ob \<le> m \<Longrightarrow> d = insize \<Longrightarrow>
           \<exists>a'. emit_block a insize m =
                  (Inr ob, a', if e then SXF_ACTION_DATA_END else SXF_ACTION_NORMAL) \<and>
                staged md km ke a' [] v 0 e"
    and "length ob \<le> m \<Longrightarrow> d \<noteq> insize \<Longrightarrow>
           \<exists>a'. emit_block a insize m = (Inr ob, a', SXF_ACTION_REPEAT) \<and>
                staged md km ke a' [] v d e"
proof -
  have f: "keyed md km ke a" "blkbytes a = length ob" "take (length ob) (blk a) = ob"
    "data_out_left a = 0" "ivmac a = v" "data_in a = d" "data_end a = e"
    using assms by (simp_all add: pending_def)
  have tk: "take m (blk a) = take m ob" if "m < length ob"
    using take_drop_within [OF f(3), of 0 m] that by simp
  show "length ob > m \<Longrightarrow>
           \<exists>a'. emit_block a insize m = (Inr (take m ob), a', SXF_ACTION_REPEAT) \<and>
                pending md km ke a' ob (length ob - m) v d e \<and> inbytes a' = 0"
    using f tk by (auto simp: emit_block_def Let_def pending_def keyed_def)
  show "length ob \<le> m \<Longrightarrow> d = insize \<Longrightarrow>
           \<exists>a'. emit_block a insize m =
                  (Inr ob, a', if e then SXF_ACTION_DATA_END else SXF_ACTION_NORMAL) \<and>
                staged md km ke a' [] v 0 e"
    using f by (auto simp: emit_block_def Let_def staged_def keyed_def)
  show "length ob \<le> m \<Longrightarrow> d \<noteq> insize \<Longrightarrow>
           \<exists>a'. emit_block a insize m = (Inr ob, a', SXF_ACTION_REPEAT) \<and>
                staged md km ke a' [] v d e"
    using f by (auto simp: emit_block_def Let_def staged_def keyed_def)
qed

lemma drain_pending:
  assumes "pending md km ke a ob L v d e" "0 < L" "inbytes a = 0"
  shows "L > m \<Longrightarrow>
           \<exists>a'. aes256_data_process cr a inp past m md SXF_ACTION_REPEAT =
                  (Inr (take m (drop (length ob - L) ob)), a', SXF_ACTION_REPEAT) \<and>
                pending md km ke a' ob (L - m) v d e \<and> inbytes a' = 0"
    and "L \<le> m \<Longrightarrow> d = length inp \<Longrightarrow>
           \<exists>a'. aes256_data_process cr a inp past m md SXF_ACTION_REPEAT =
                  (Inr (drop (length ob - L) ob), a',
                   if e then SXF_ACTION_DATA_END else SXF_ACTION_NORMAL) \<and>
                staged md km ke a' [] v 0 e"
    and "L \<le> m \<Longrightarrow> d \<noteq> length inp \<Longrightarrow>
           \<exists>a'. aes256_data_process cr a inp past m md SXF_ACTION_REPEAT =
                  (Inr (drop (length ob - L) ob), a', SXF_ACTION_REPEAT) \<and>
                staged md km ke a' [] v d e"
proof -
  have f: "keyed md km ke a" "blkbytes a = length ob" "take (length ob) (blk a) = ob"
    "data_out_left a = L" "L \<le> length ob" "ivmac a = v" "data_in a = d" "data_end a = e"
    using assms(1) by (simp_all add: pending_def)
  have part: "take m (drop (length ob - L) (blk a)) = take m (drop (length ob - L) ob)" if "m < L"
    using take_drop_within [OF f(3), of "length ob - L" m] that f(5) by simp
  have rest: "take L (drop (length ob - L) (blk a)) = drop (length ob - L) ob"
    using take_drop_within [OF f(3), of "length ob - L" L] f(5) by simp
  show "L > m \<Longrightarrow>
           \<exists>a'. aes256_data_process cr a inp past m md SXF_ACTION_REPEAT =
                  (Inr (take m (drop (length ob - L) ob)), a', SXF_ACTION_REPEAT) \<and>
                pending md km ke a' ob (L - m) v d e \<and> inbytes a' = 0"
    using f part assms(2,3)
    by (auto simp: aes256_data_process_def drain_output_def Let_def pending_def keyed_def)
  show "L \<le> m \<Longrightarrow> d = length inp \<Longrightarrow>
           \<exists>a'. aes256_data_process cr a inp past m md SXF_ACTION_REPEAT =
                  (Inr (drop (length ob - L) ob), a',
                   if e then SXF_ACTION_DATA_END else SXF_ACTION_NORMAL) \<and>
                staged md km ke a' [] v 0 e"
    using f rest assms(2,3)
    by (auto simp: aes256_data_process_def drain_output_def Let_def staged_def keyed_def)
  show "L \<le> m \<Longrightarrow> d \<noteq> length inp \<Longrightarrow>
           \<exists>a'. aes256_data_process cr a inp past m md SXF_ACTION_REPEAT =
                  (Inr (drop (length ob - L) ob), a', SXF_ACTION_REPEAT) \<and>
                staged md km ke a' [] v d e"
    using f rest assms(2,3)
    by (auto simp: aes256_data_process_def drain_output_def Let_def staged_def keyed_def)
qed

lemma cbc_decrypt_length:
  "length iv \<le> 16 \<Longrightarrow> (\<forall>c \<in> set cs. length c = 16) \<Longrightarrow>
   length (concat (cbc_decrypt_blocks D iv cs)) \<le> 16 * length cs"
proof (induction cs arbitrary: iv)
  case Nil
  then show ?case by simp
next
  case (Cons c cs)
  have "length (concat (cbc_decrypt_blocks D c cs)) \<le> 16 * length cs"
    using Cons.IH [of c] Cons.prems by simp
  moreover have "length (map2 (XOR) (D c) iv) \<le> 16" using Cons.prems(1) by simp
  ultimately show ?case by simp
qed

lemma evp_decrypt_update_length:
  assumes "length iv = 16"
  shows "length (fst (EVP_DecryptUpdate cr (EVP_CipherInit_iv c iv) ct)) \<le> length ct"
proof (cases "ct = []")
  case True
  then show ?thesis by (simp add: EVP_DecryptUpdate_def)
next
  case False
  define n where "n = (length ct div 16) * 16"
  define cblocks where "cblocks = blocks_of 16 (take n ct)"
  define ps where "ps = concat (cbc_decrypt_blocks (AES_decrypt cr (cipher_key c)) iv cblocks)"
  have len: "length (take n ct) = (length ct div 16) * 16" unfolding n_def by (rule div16_take)
  have cb: "length cblocks = length ct div 16" "\<forall>b \<in> set cblocks. length b = 16"
    using blocks_of_exact [OF _ len] unfolding cblocks_def by simp_all
  have "length ps \<le> 16 * length cblocks"
    unfolding ps_def using cbc_decrypt_length [OF _ cb(2), of iv] assms by simp
  then have lps: "length ps \<le> length ct" using cb(1) by simp
  have "fst (EVP_DecryptUpdate cr (EVP_CipherInit_iv c iv) ct) = take (n - 16) ps
        \<or> fst (EVP_DecryptUpdate cr (EVP_CipherInit_iv c iv) ct) = ps"
    using False
    by (simp add: EVP_DecryptUpdate_def EVP_CipherInit_iv_def Let_def n_def cblocks_def ps_def)
  with lps show ?thesis by auto
qed

lemma evp_decrypt_final_length: "EVP_DecryptFinal_ex c = Some fin \<Longrightarrow> length fin \<le> 16"
  by (auto simp: EVP_DecryptFinal_ex_def Let_def split: if_splits)

lemma memcpy_chain2:
  assumes "length x1 + length x2 \<le> length b"
  shows "take (length x1 + length x2) (memcpy (memcpy b 0 x1) (length x1) x2) = x1 @ x2"
    and "length (memcpy (memcpy b 0 x1) (length x1) x2) = length b"
  using assms by (simp_all add: memcpy_def)

lemma decrypt_block_staged:
  assumes ok: "openssl_ok cr"
    and st: "staged SXF_MODE_DOWNLOAD km ke a st v d e"
    and len: "length st \<le> BUF_SIZE"
  shows "case open_block cr km ke st of
           Inl err \<Rightarrow> (\<exists>a'. decrypt_block cr a = (Inl err, a') \<and>
                            (err = AuthenticationFailure \<longrightarrow> decrypt_err a'))
         | Inr pt \<Rightarrow> (\<exists>a'. decrypt_block cr a = (Inr (), a') \<and>
                          pending SXF_MODE_DOWNLOAD km ke a' pt 0 v d e)"
proof -
  have k: "keyed SXF_MODE_DOWNLOAD km ke a" and f: "inbytes a = length st" "take (length st) (inbuf a) = st"
    "ivmac a = v" "data_in a = d" "data_end a = e" "data_out_left a = 0"
    using st by (simp_all add: staged_def)
  have kk: "length (inbuf a) = BUF_SIZE" "length (blk a) = BUF_SIZE" "length (ivmac a) = 64"
    "hmd (ivhash a) = Some EVP_sha1" "hmd (hmac a) = Some EVP_sha512"
    "hkey (ivhash a) = km" "hkey (hmac a) = km" "cipher_key (dctx a) = ke"
    using k by (simp_all add: keyed_def)
  show ?thesis
  proof (cases "length st < 48")
    case True
    then show ?thesis
      by (simp add: open_block_def decrypt_block_def Let_def lib_ok_all [OF ok] f)
  next
    case False
    define n where "n = length st - 32"
    have n: "16 \<le> n" "n + 32 = length st" "n + 32 \<le> BUF_SIZE" using False len by (simp_all add: n_def)
    define body where "body = take n st"
    define tagr where "tagr = drop n st"
    define mac where "mac = HMAC cr EVP_sha512 km body"
    define iv where "iv = take 16 body"
    define ct where "ct = drop 16 body"
    have body_in: "take n (inbuf a) = body"
      using f(2) n by (metis body_def min.absorb1 take_take le_add1)
    have tag_in: "take 32 (drop n (inbuf a)) = tagr"
      using f(2) n unfolding tagr_def by (metis add.commute drop_take add_diff_cancel_left')
    have iv_in: "take 16 (inbuf a) = iv"
      using body_in n(1) unfolding iv_def by (metis min.absorb1 take_take)
    have ct_in: "take (n - 16) (drop 16 (inbuf a)) = ct"
      using body_in n(1) unfolding ct_def by (metis drop_take)
    have lmac: "length mac = 64" using hmac_sizes(2) [OF ok] by (simp add: mac_def)
    have lbody: "length body = n" using n by (simp add: body_def)
    have liv: "length iv = 16" using n(1) lbody by (simp add: iv_def)
    have cmp: "hmac_compare (drop n (inbuf a)) mac 32 = 0 \<longleftrightarrow> tagr = take 32 mac"
      using hmac_compare_zero_iff [of 32 "drop n (inbuf a)" mac] kk(1) n lmac tag_in by simp
    obtain upd d1 where U: "EVP_DecryptUpdate cr (EVP_CipherInit_iv (dctx a) iv) ct = (upd, d1)"
      by fastforce
    have run: "cbc_pkcs_decrypt cr ke iv ct = map_option (\<lambda>fin. upd @ fin) (EVP_DecryptFinal_ex d1)"
      using evp_decrypt_run [of cr "dctx a" iv ct] U by (simp add: kk)
    have lupd: "length upd \<le> length ct"
      using evp_decrypt_update_length [OF liv, of cr "dctx a" ct] U by simp
    have lct: "length ct \<le> BUF_SIZE - 48" using n by (simp add: ct_def body_def)
    have kd1: "cipher_key d1 = ke"
      using evp_dec_update_key [of cr "EVP_CipherInit_iv (dctx a) iv" ct] U
      by (simp add: EVP_CipherInit_iv_def kk)
    have ob: "open_block cr km ke st =
        (if take 32 mac \<noteq> tagr then Inl AuthenticationFailure
         else case EVP_DecryptFinal_ex d1 of None \<Rightarrow> Inl AuthenticationFailure
              | Some fin \<Rightarrow> Inr (upd @ fin))"
      using False
      by (simp add: open_block_def Let_def n_def [symmetric] body_def [symmetric] tagr_def [symmetric]
          mac_def [symmetric] iv_def [symmetric] ct_def [symmetric] run split: option.splits)
    have db: "decrypt_block cr a =
        (if take 32 mac \<noteq> tagr
         then (Inl AuthenticationFailure,
               a\<lparr>hmac := HMAC_Update (HMAC_Init_reset (hmac a)) body, inbytes := n, decrypt_err := True\<rparr>)
         else case EVP_DecryptFinal_ex d1 of
                None \<Rightarrow> (Inl AuthenticationFailure,
                  a\<lparr>hmac := HMAC_Update (HMAC_Init_reset (hmac a)) body, inbytes := n,
                    dctx := d1, blk := memcpy (blk a) 0 upd, blkbytes := length upd, decrypt_err := True\<rparr>)
              | Some fin \<Rightarrow> (Inr (),
                  a\<lparr>hmac := HMAC_Update (HMAC_Init_reset (hmac a)) body, inbytes := n,
                    dctx := d1, blk := memcpy (memcpy (blk a) 0 upd) (length upd) fin,
                    blkbytes := length upd + length fin\<rparr>))"
      using False lmac cmp
      by (simp add: decrypt_block_def Let_def lib_ok_all [OF ok] f kk HMAC_Final_def HMAC_Update_def
          HMAC_Init_reset_def n_def [symmetric] body_in mac_def [symmetric] iv_in ct_in U
          split: option.splits) 
    show ?thesis
    proof (cases "take 32 mac \<noteq> tagr")
      case True
      then show ?thesis by (simp add: ob db)
    next
      case eq: False
      show ?thesis
      proof (cases "EVP_DecryptFinal_ex d1")
        case None
        with eq show ?thesis by (simp add: ob db)
      next
        case (Some fin)
        have "length fin \<le> 16" using evp_decrypt_final_length [OF Some] .
        then have fits: "length upd + length fin \<le> length (blk a)"
          using lupd lct kk(2) by simp
        note ch = memcpy_chain2 [OF fits]
        show ?thesis
          using eq Some ch kk f kd1
          by (simp add: ob db pending_def keyed_def HMAC_Update_def HMAC_Init_reset_def)
      qed
    qed
  qed
qed

lemma block_staged:
  assumes ok: "openssl_ok cr"
    and st: "staged md km ke a st v d e"
    and len: "length st \<le> bsize_of md"
  shows "case block_out cr md km ke v st of
           Inl err \<Rightarrow> (\<exists>a'. (if md = SXF_MODE_UPLOAD then encrypt_block cr a else decrypt_block cr a)
                               = (Inl err, a') \<and>
                            (err = AuthenticationFailure \<longrightarrow> decrypt_err a'))
         | Inr (ob, v') \<Rightarrow> (\<exists>a'. (if md = SXF_MODE_UPLOAD then encrypt_block cr a else decrypt_block cr a)
                               = (Inr (), a') \<and>
                          pending md km ke a' ob 0 v' d e)"
proof (cases md)
  case SXF_MODE_UPLOAD
  with encrypt_block_staged [OF ok, of km ke a st v d e] st len show ?thesis
    by (simp add: block_out_def bsize_of_def)
next
  case SXF_MODE_DOWNLOAD
  with decrypt_block_staged [OF ok, of km ke a st v d e] st len show ?thesis
    by (auto simp: block_out_def bsize_of_def split: sum.splits)
qed

lemma staged_data_end:
  "staged md km ke a st v d e \<Longrightarrow> staged md km ke (a\<lparr>data_end := True\<rparr>) st v d True"
  by (auto simp: staged_def keyed_def)

lemma process_step:
  fixes act :: sxf_action and inp st :: bytes and d :: nat and e :: bool and md :: sxf_mode
  assumes ok: "openssl_ok cr"
    and st: "staged md km ke a st v d e"
    and len: "length st \<le> bsize_of md"
    and d: "d \<le> length inp" "length inp < 2 ^ 32"
  defines "fin \<equiv> (act = SXF_ACTION_DATA_END \<or> e)"
  defines "n \<equiv> min (bsize_of md - length st) (length inp - d)"
  defines "W \<equiv> st @ take n (drop d inp)"
  shows "if length W = bsize_of md \<or> (W \<noteq> [] \<and> fin) then
           (case block_out cr md km ke v W of
              Inl err \<Rightarrow> (\<exists>a'. aes256_data_process cr a inp past m md act = (Inl err, a', act) \<and>
                               (err = AuthenticationFailure \<longrightarrow> decrypt_err a'))
            | Inr (ob, v') \<Rightarrow> (\<exists>a3. aes256_data_process cr a inp past m md act = emit_block a3 (length inp) m \<and>
                               pending md km ke a3 ob 0 v' (d + n) fin))
         else (\<exists>a'. aes256_data_process cr a inp past m md act = (Inr [], a', SXF_ACTION_NORMAL) \<and>
                    staged md km ke a' W v 0 fin)"
proof -
  define a1 where "a1 = (if act = SXF_ACTION_DATA_END then a\<lparr>data_end := True\<rparr> else a)"
  define a2 where "a2 = ingest_input a1 inp past (bsize_of md)"
  have st1: "staged md km ke a1 st v d fin"
    using st staged_data_end [OF st] by (auto simp: a1_def fin_def)
  have st2: "staged md km ke a2 W v (d + n) fin"
    unfolding a2_def W_def n_def by (rule ingest_staged [OF st1 d len])
  have nd: "data_out_left a = 0" using st by (simp add: staged_def)
  have d1: "\<not> length inp < data_in a1" using st1 d by (simp add: staged_def)
  have f2: "inbytes a2 = length W" "data_end a2 = fin" using st2 by (simp_all add: staged_def)
  have lW: "length W \<le> bsize_of md" using len by (simp add: W_def n_def)
  have a2u: "md = SXF_MODE_UPLOAD \<Longrightarrow> ingest_input a1 inp past 16384 = a2"
    and a2d: "md \<noteq> SXF_MODE_UPLOAD \<Longrightarrow> ingest_input a1 inp past 16448 = a2"
    by (simp_all add: a2_def bsize_of_def)
  have proc: "aes256_data_process cr a inp past m md act =
     (if length W = bsize_of md \<or> (W \<noteq> [] \<and> fin) then
        (case (if md = SXF_MODE_UPLOAD then encrypt_block cr a2 else decrypt_block cr a2) of
           (Inl err, a3) \<Rightarrow> (Inl err, a3, act)
         | (Inr u, a3) \<Rightarrow> emit_block a3 (length inp) m)
      else (Inr [], a2\<lparr>data_in := 0\<rparr>, SXF_ACTION_NORMAL))"
    using nd f2
    by (auto simp add: aes256_data_process_def Let_def a1_def [symmetric] a2u a2d bsize_of_def fin_def)
  show ?thesis
  proof (cases "length W = bsize_of md \<or> (W \<noteq> [] \<and> fin)")
    case True
    from block_staged [OF ok st2 lW] True show ?thesis
      by (auto simp: proc split: sum.splits prod.splits)
  next
    case False
    have s: "staged md km ke (a2\<lparr>data_in := 0\<rparr>) W v 0 fin"
      using st2 by (auto simp: staged_def keyed_def)
    have r: "aes256_data_process cr a inp past m md act = (Inr [], a2\<lparr>data_in := 0\<rparr>, SXF_ACTION_NORMAL)"
      by (simp only: proc if_not_P [OF False])
    show ?thesis
      by (simp only: if_not_P [OF False]) (use r s in blast)
  qed
qed

lemma host_chunk_drain:
  assumes m: "0 < m"
    and p: "pending md km ke a ob L v d e" "0 < L" "inbytes a = 0"
  shows "\<exists>a'. staged md km ke a' [] v (if d = length inp then 0 else d) e \<and>
           host_chunk cr md m inp past a SXF_ACTION_REPEAT acc =
             (if d = length inp
              then Some (Inr (acc @ drop (length ob - L) ob), a',
                         if e then SXF_ACTION_DATA_END else SXF_ACTION_NORMAL)
              else host_chunk cr md m inp past a' SXF_ACTION_REPEAT (acc @ drop (length ob - L) ob))"
  using p
proof (induction L arbitrary: a acc rule: less_induct)
  case (less L)
  have Lob: "L \<le> length ob" using less.prems(1) by (simp add: pending_def)
  show ?case
  proof (cases "L > m")
    case True
    from drain_pending(1) [OF less.prems True, of cr inp]
    obtain a1 where a1: "aes256_data_process cr a inp past m md SXF_ACTION_REPEAT =
        (Inr (take m (drop (length ob - L) ob)), a1, SXF_ACTION_REPEAT)"
      "pending md km ke a1 ob (L - m) v d e" "inbytes a1 = 0" by blast
    have lt: "L - m < L" "0 < L - m" using True m by simp_all
    from less.IH [OF lt(1) a1(2) lt(2) a1(3), of "acc @ take m (drop (length ob - L) ob)"]
    obtain a' where a': "staged md km ke a' [] v (if d = length inp then 0 else d) e"
      "host_chunk cr md m inp past a1 SXF_ACTION_REPEAT (acc @ take m (drop (length ob - L) ob)) =
        (if d = length inp
         then Some (Inr ((acc @ take m (drop (length ob - L) ob)) @ drop (length ob - (L - m)) ob), a',
                    if e then SXF_ACTION_DATA_END else SXF_ACTION_NORMAL)
         else host_chunk cr md m inp past a' SXF_ACTION_REPEAT
                ((acc @ take m (drop (length ob - L) ob)) @ drop (length ob - (L - m)) ob))"
      by blast
    have idx: "length ob - (L - m) = (length ob - L) + m" using Lob True by simp
    have join: "take m (drop (length ob - L) ob) @ drop (length ob - (L - m)) ob = drop (length ob - L) ob"
      unfolding idx by (metis add.commute append_take_drop_id drop_drop)
    have step: "host_chunk cr md m inp past a SXF_ACTION_REPEAT acc =
                host_chunk cr md m inp past a1 SXF_ACTION_REPEAT (acc @ take m (drop (length ob - L) ob))"
      by (subst host_chunk.simps) (simp add: a1(1))
    show ?thesis
      using a' join by (auto simp: step)
  next
    case False
    then have le: "L \<le> m" by simp
    show ?thesis
    proof (cases "d = length inp")
      case True
      from drain_pending(2) [OF less.prems le True, of cr]
      obtain a' where a': "aes256_data_process cr a inp past m md SXF_ACTION_REPEAT =
          (Inr (drop (length ob - L) ob), a', if e then SXF_ACTION_DATA_END else SXF_ACTION_NORMAL)"
        "staged md km ke a' [] v 0 e" by blast
      have "host_chunk cr md m inp past a SXF_ACTION_REPEAT acc =
            Some (Inr (acc @ drop (length ob - L) ob), a',
                  if e then SXF_ACTION_DATA_END else SXF_ACTION_NORMAL)"
        by (subst host_chunk.simps) (simp add: a'(1))
      with a'(2) True show ?thesis by auto
    next
      case False
      from drain_pending(3) [OF less.prems le False, of cr]
      obtain a' where a': "aes256_data_process cr a inp past m md SXF_ACTION_REPEAT =
          (Inr (drop (length ob - L) ob), a', SXF_ACTION_REPEAT)"
        "staged md km ke a' [] v d e" by blast
      have "host_chunk cr md m inp past a SXF_ACTION_REPEAT acc =
            host_chunk cr md m inp past a' SXF_ACTION_REPEAT (acc @ drop (length ob - L) ob)"
        by (subst host_chunk.simps) (simp add: a'(1))
      with a'(2) False show ?thesis by auto
    qed
  qed
qed

section \<open>The host's loop and the stream of blocks\<close>

lemma host_chunk_emit:
  assumes m: "0 < m"
    and proc: "aes256_data_process cr a inp past m md act = emit_block a3 (length inp) m"
    and p: "pending md km ke a3 ob 0 v d e"
  shows "\<exists>a'. staged md km ke a' [] v (if d = length inp then 0 else d) e \<and>
           host_chunk cr md m inp past a act acc =
             (if d = length inp
              then Some (Inr (acc @ ob), a', if e then SXF_ACTION_DATA_END else SXF_ACTION_NORMAL)
              else host_chunk cr md m inp past a' SXF_ACTION_REPEAT (acc @ ob))"
proof (cases "length ob > m")
  case True
  from emit_pending(1) [OF p True, of "length inp"]
  obtain a4 where a4: "emit_block a3 (length inp) m = (Inr (take m ob), a4, SXF_ACTION_REPEAT)"
    "pending md km ke a4 ob (length ob - m) v d e" "inbytes a4 = 0" by blast
  have step: "host_chunk cr md m inp past a act acc =
              host_chunk cr md m inp past a4 SXF_ACTION_REPEAT (acc @ take m ob)"
    by (subst host_chunk.simps) (simp add: proc a4(1))
  have pos: "0 < length ob - m" using True by simp
  from host_chunk_drain [OF m a4(2) pos a4(3), of inp cr past "acc @ take m ob"]
  obtain a' where a': "staged md km ke a' [] v (if d = length inp then 0 else d) e"
    "host_chunk cr md m inp past a4 SXF_ACTION_REPEAT (acc @ take m ob) =
       (if d = length inp
        then Some (Inr ((acc @ take m ob) @ drop (length ob - (length ob - m)) ob), a',
                   if e then SXF_ACTION_DATA_END else SXF_ACTION_NORMAL)
        else host_chunk cr md m inp past a' SXF_ACTION_REPEAT
               ((acc @ take m ob) @ drop (length ob - (length ob - m)) ob))"
    by blast
  have "length ob - (length ob - m) = m" using True by simp
  then have join: "(acc @ take m ob) @ drop (length ob - (length ob - m)) ob = acc @ ob" by simp
  show ?thesis
    using a' unfolding join step by blast
next
  case False
  then have le: "length ob \<le> m" by simp
  show ?thesis
  proof (cases "d = length inp")
    case True
    from emit_pending(2) [OF p le True]
    obtain a' where a': "emit_block a3 (length inp) m =
        (Inr ob, a', if e then SXF_ACTION_DATA_END else SXF_ACTION_NORMAL)"
      "staged md km ke a' [] v 0 e" by blast
    have "host_chunk cr md m inp past a act acc =
          Some (Inr (acc @ ob), a', if e then SXF_ACTION_DATA_END else SXF_ACTION_NORMAL)"
      by (subst host_chunk.simps) (simp add: proc a'(1))
    with a'(2) True show ?thesis by auto
  next
    case False
    from emit_pending(3) [OF p le False]
    obtain a' where a': "emit_block a3 (length inp) m = (Inr ob, a', SXF_ACTION_REPEAT)"
      "staged md km ke a' [] v d e" by blast
    have "host_chunk cr md m inp past a act acc =
          host_chunk cr md m inp past a' SXF_ACTION_REPEAT (acc @ ob)"
      by (subst host_chunk.simps) (simp add: proc a'(1))
    with a'(2) False show ?thesis by auto
  qed
qed

lemma bsize_pos: "0 < bsize_of md"
  by (simp add: bsize_of_def)

lemma stream_out_Nil: "stream_out cr md km ke fin v [] = Inr ([], [], v)"
  by (subst stream_out.simps) (simp add: bsize_of_def)

lemma host_chunk_stream:
  fixes act :: sxf_action and inp st :: bytes and d :: nat and e :: bool and md :: sxf_mode
  assumes ok: "openssl_ok cr" and m: "0 < m"
    and inp: "length inp < 2 ^ 32"
    and st: "staged md km ke a st v d e" "length st < bsize_of md" "d \<le> length inp"
  shows "case stream_out cr md km ke (act = SXF_ACTION_DATA_END \<or> e) v (st @ drop d inp) of
           Inl err \<Rightarrow>
             (\<exists>a' act'. host_chunk cr md m inp past a act acc = Some (Inl err, a', act') \<and>
                        (err = AuthenticationFailure \<longrightarrow> decrypt_err a'))
         | Inr (out, l, v') \<Rightarrow>
             (\<exists>a' act'. host_chunk cr md m inp past a act acc = Some (Inr (acc @ out), a', act') \<and>
                        staged md km ke a' l v' 0 (act = SXF_ACTION_DATA_END \<or> e) \<and>
                        act' \<noteq> SXF_ACTION_REPEAT \<and> length l < bsize_of md)"
  using st
proof (induction "length inp - d" arbitrary: a st v d e act acc rule: less_induct)
  case less
  define fin where "fin = (act = SXF_ACTION_DATA_END \<or> e)"
  define B where "B = bsize_of md"
  define n where "n = min (B - length st) (length inp - d)"
  define W where "W = st @ take n (drop d inp)"
  define X where "X = st @ drop d inp"
  have Bpos: "0 < B" by (simp add: B_def bsize_pos)
  have stB: "length st < B" using less.prems(2) by (simp add: B_def)
  have WX: "W = take B X"
    using stB by (auto simp: W_def X_def n_def min_def)
  have dropX: "drop B X = drop (d + n) inp"
    using stB less.prems(3) by (auto simp: X_def n_def min_def add.commute)
  have lenW: "(length W = B) = (length X \<ge> B)"
    using stB less.prems(3) by (auto simp: W_def X_def n_def min_def)
  have neW: "(W \<noteq> []) = (X \<noteq> [])"
    using stB less.prems(3) by (auto simp: W_def X_def n_def min_def)
  have trig: "(length W = B \<or> (W \<noteq> [] \<and> fin)) = (length X \<ge> B \<or> (fin \<and> X \<noteq> []))"
    using lenW neW by auto
  have dn: "d + n \<le> length inp" using less.prems(3) by (simp add: n_def)
  note step = process_step [OF ok less.prems(1) less_imp_le [OF less.prems(2)] less.prems(3) inp,
      of act past m, folded fin_def B_def, folded n_def, folded W_def]
  show ?case
  proof (cases "length X \<ge> B \<or> (fin \<and> X \<noteq> [])")
    case False
    with trig have nt: "\<not> (length W = B \<or> (W \<noteq> [] \<and> fin))" by simp
    from step nt obtain a' where a': "aes256_data_process cr a inp past m md act = (Inr [], a', SXF_ACTION_NORMAL)"
      "staged md km ke a' W v 0 fin" by auto
    have WeqX: "W = X" using False WX by simp
    have c: "\<not> (bsize_of md \<le> length X \<or> (fin \<and> X \<noteq> []))" using False by (simp add: B_def)
    have so: "stream_out cr md km ke fin v X = Inr ([], X, v)"
      by (subst stream_out.simps) (simp only: if_not_P [OF c])
    have hc: "host_chunk cr md m inp past a act acc = Some (Inr (acc @ []), a', SXF_ACTION_NORMAL)"
      by (subst host_chunk.simps) (simp add: a'(1))
    have "length X < B" using False by simp
    with a'(2) hc show ?thesis
      unfolding fin_def [symmetric] X_def [symmetric] so B_def [symmetric] using WeqX by auto
  next
    case True
    with trig have t: "length W = B \<or> (W \<noteq> [] \<and> fin)" by simp
    have so: "stream_out cr md km ke fin v X =
        (case block_out cr md km ke v W of
           Inl err \<Rightarrow> Inl err
         | Inr (ob, v') \<Rightarrow>
             (case stream_out cr md km ke fin v' (drop (d + n) inp) of
                Inl err \<Rightarrow> Inl err
              | Inr (obs, l, v'') \<Rightarrow> Inr (ob @ obs, l, v'')))"
    proof -
      have c: "bsize_of md \<le> length X \<or> (fin \<and> X \<noteq> [])" using True by (simp add: B_def)
      show ?thesis
        by (subst stream_out.simps) (simp only: if_P [OF c] if_P [OF True] B_def [symmetric] WX [symmetric] dropX)
    qed
    show ?thesis
    proof (cases "block_out cr md km ke v W")
      case (Inl err)
      with step t obtain a' where a': "aes256_data_process cr a inp past m md act = (Inl err, a', act)"
        "err = AuthenticationFailure \<longrightarrow> decrypt_err a'" by auto
      have hc: "host_chunk cr md m inp past a act acc = Some (Inl err, a', act)"
        by (subst host_chunk.simps) (simp add: a'(1))
      show ?thesis
        unfolding fin_def [symmetric] X_def [symmetric] so Inl using hc a'(2) by auto
    next
      case (Inr r)
      obtain ob v' where r: "r = (ob, v')" by (cases r)
      with step t Inr obtain a3 where a3:
        "aes256_data_process cr a inp past m md act = emit_block a3 (length inp) m"
        "pending md km ke a3 ob 0 v' (d + n) fin" by auto
      from host_chunk_emit [OF m a3, of acc]
      obtain a4 where a4: "staged md km ke a4 [] v' (if d + n = length inp then 0 else d + n) fin"
        "host_chunk cr md m inp past a act acc =
           (if d + n = length inp
            then Some (Inr (acc @ ob), a4, if fin then SXF_ACTION_DATA_END else SXF_ACTION_NORMAL)
            else host_chunk cr md m inp past a4 SXF_ACTION_REPEAT (acc @ ob))"
        by blast
      show ?thesis
      proof (cases "d + n = length inp")
        case True
        have so2: "stream_out cr md km ke fin v X = Inr (ob @ [], [], v')"
          by (simp add: so Inr r True stream_out_Nil)
        show ?thesis
          unfolding fin_def [symmetric] X_def [symmetric] so2
          using a4 True Bpos by (auto simp: B_def)
      next
        case False
        then have lt: "d + n < length inp" using dn by simp
        have npos: "0 < n" using lt t stB by (auto simp: n_def W_def min_def split: if_splits)
        have dec: "length inp - (d + n) < length inp - d" using lt npos by simp
        have a4s: "staged md km ke a4 [] v' (d + n) fin" using a4(1) False by simp
        have l0: "length ([]::bytes) < bsize_of md" by (simp add: bsize_pos)
        have finfin: "(SXF_ACTION_REPEAT = SXF_ACTION_DATA_END \<or> fin) = fin" by simp
        note IH = less.hyps [OF dec a4s l0 dn, of SXF_ACTION_REPEAT "acc @ ob", unfolded finfin, simplified]
        have hc: "host_chunk cr md m inp past a act acc =
                  host_chunk cr md m inp past a4 SXF_ACTION_REPEAT (acc @ ob)"
          using a4(2) False by simp
        show ?thesis
        proof (cases "stream_out cr md km ke fin v' (drop (d + n) inp)")
          case (Inl err)
          with IH obtain a' act' where
            "host_chunk cr md m inp past a4 SXF_ACTION_REPEAT (acc @ ob) = Some (Inl err, a', act')"
            "err = AuthenticationFailure \<longrightarrow> decrypt_err a'" by auto
          then show ?thesis
            unfolding fin_def [symmetric] X_def [symmetric] so \<open>block_out cr md km ke v W = Inr r\<close> r hc
            using Inl by auto
        next
          case (Inr q)
          obtain obs l v'' where q: "q = (obs, l, v'')" by (cases q)
          with IH Inr obtain a' act' where
            "host_chunk cr md m inp past a4 SXF_ACTION_REPEAT (acc @ ob) = Some (Inr (acc @ ob @ obs), a', act')"
            "staged md km ke a' l v'' 0 fin" "act' \<noteq> SXF_ACTION_REPEAT" "length l < bsize_of md"
            by auto
          then show ?thesis
            unfolding fin_def [symmetric] X_def [symmetric] so \<open>block_out cr md km ke v W = Inr r\<close> r hc
            using Inr q by auto
        qed
      qed
    qed
  qed
qed

lemma stream_out_append:
  "stream_out cr md km ke fin v (X @ Y) =
     (case stream_out cr md km ke False v X of
        Inl err \<Rightarrow> Inl err
      | Inr (o1, l1, v1) \<Rightarrow>
          (case stream_out cr md km ke fin v1 (l1 @ Y) of
             Inl err \<Rightarrow> Inl err
           | Inr (o2, l2, v2) \<Rightarrow> Inr (o1 @ o2, l2, v2)))"
proof (induction "length X" arbitrary: X v rule: less_induct)
  case less
  define B where "B = bsize_of md"
  have Bpos: "0 < B" by (simp add: B_def bsize_pos)
  show ?case
  proof (cases "B \<le> length X")
    case False
    have c: "\<not> (bsize_of md \<le> length X \<or> (False \<and> X \<noteq> []))" using False by (simp add: B_def)
    have "stream_out cr md km ke False v X = Inr ([], X, v)"
      by (subst stream_out.simps) (simp only: if_not_P [OF c])
    then show ?thesis by (simp split: sum.splits)
  next
    case True
    have c1: "bsize_of md \<le> length X \<or> (False \<and> X \<noteq> [])" using True by (simp add: B_def)
    have c1': "B \<le> length X \<or> (False \<and> X \<noteq> [])" using True by simp
    have c2: "bsize_of md \<le> length (X @ Y) \<or> (fin \<and> X @ Y \<noteq> [])" using True by (simp add: B_def)
    have c2': "B \<le> length (X @ Y) \<or> (fin \<and> X @ Y \<noteq> [])" using True by simp
    have tk: "take B (X @ Y) = take B X" "drop B (X @ Y) = drop B X @ Y" using True by simp_all
    have s1: "stream_out cr md km ke False v X =
        (case block_out cr md km ke v (take B X) of
           Inl err \<Rightarrow> Inl err
         | Inr (ob, v') \<Rightarrow>
             (case stream_out cr md km ke False v' (drop B X) of
                Inl err \<Rightarrow> Inl err
              | Inr (obs, l, v'') \<Rightarrow> Inr (ob @ obs, l, v'')))"
      by (subst stream_out.simps) (simp only: if_P [OF c1] if_P [OF c1'] B_def [symmetric])
    have s2: "stream_out cr md km ke fin v (X @ Y) =
        (case block_out cr md km ke v (take B X) of
           Inl err \<Rightarrow> Inl err
         | Inr (ob, v') \<Rightarrow>
             (case stream_out cr md km ke fin v' (drop B X @ Y) of
                Inl err \<Rightarrow> Inl err
              | Inr (obs, l, v'') \<Rightarrow> Inr (ob @ obs, l, v'')))"
      by (subst stream_out.simps) (simp only: if_P [OF c2] if_P [OF c2'] B_def [symmetric] tk)
    have dec: "length (drop B X) < length X" using True Bpos by simp
    show ?thesis
      unfolding s1 s2 using less.hyps [OF dec]
      by (simp split: sum.splits prod.splits)
  qed
qed

lemma staged_length: "staged md km ke a st v d e \<Longrightarrow> length st = inbytes a"
  by (simp add: staged_def)

lemma host_stream_sem:
  assumes ok: "openssl_ok cr" and m: "0 < m"
  shows "cs \<noteq> [] \<Longrightarrow> \<forall>c \<in> set cs. length c < 2 ^ 32 \<Longrightarrow>
         staged md km ke a st v 0 False \<Longrightarrow> length st < bsize_of md \<Longrightarrow>
         (case stream_out cr md km ke True v (st @ concat cs) of
            Inl err \<Rightarrow> (\<exists>a'. host_stream cr md m past a cs = Some (Inl err, a') \<and>
                             (err = AuthenticationFailure \<longrightarrow> decrypt_err a'))
          | Inr (out, l, v') \<Rightarrow> (\<exists>a'. host_stream cr md m past a cs = Some (Inr out, a')))"
proof (induction cs arbitrary: a st v)
  case Nil
  then show ?case by simp
next
  case (Cons c cs)
  have lc: "length c < 2 ^ 32" using Cons.prems(2) by simp
  have d0: "0 \<le> length c" by simp
  show ?case
  proof (cases cs)
    case Nil
    note hc = host_chunk_stream [OF ok m lc Cons.prems(3,4) d0, where act = SXF_ACTION_DATA_END and acc = "[]" and past = past, simplified]
    show ?thesis
    proof (cases "stream_out cr md km ke True v (st @ c)")
      case (Inl err)
      with hc show ?thesis by (auto simp: Nil)
    next
      case (Inr r)
      with hc show ?thesis by (cases r) (auto simp: Nil)
    qed
  next
    case (Cons c' cs')
    note hc = host_chunk_stream [OF ok m lc Cons.prems(3,4) d0, where act = SXF_ACTION_NORMAL and acc = "[]" and past = past, simplified]
    have rest: "cs \<noteq> []" "\<forall>c \<in> set cs. length c < 2 ^ 32" using Cons Cons.prems(2) by simp_all
    show ?thesis
    proof (cases "stream_out cr md km ke False v (st @ c)")
      case (Inl err)
      from hc Inl obtain a1 act1 where a1:
        "host_chunk cr md m c past a SXF_ACTION_NORMAL [] = Some (Inl err, a1, act1)"
        "err = AuthenticationFailure \<longrightarrow> decrypt_err a1" by auto
      have so: "stream_out cr md km ke True v (st @ concat (c # cs)) = Inl err"
        using stream_out_append [of cr md km ke True v "st @ c" "concat cs"] Inl by simp
      show ?thesis
        unfolding so using a1 by (simp add: Cons)
    next
      case (Inr r)
      obtain o1 l1 v1 where r: "r = (o1, l1, v1)" by (cases r)
      from hc Inr r obtain a1 act1 where a1:
        "host_chunk cr md m c past a SXF_ACTION_NORMAL [] = Some (Inr o1, a1, act1)"
        "staged md km ke a1 l1 v1 0 False" "length l1 < bsize_of md" by auto
      note IH = Cons.IH [OF rest a1(2,3)]
      have so: "stream_out cr md km ke True v (st @ concat (c # cs)) =
          (case stream_out cr md km ke True v1 (l1 @ concat cs) of
             Inl err \<Rightarrow> Inl err
           | Inr (o2, l2, v2) \<Rightarrow> Inr (o1 @ o2, l2, v2))"
        using stream_out_append [of cr md km ke True v "st @ c" "concat cs"] Inr r by simp
      show ?thesis
      proof (cases "stream_out cr md km ke True v1 (l1 @ concat cs)")
        case (Inl err)
        with IH obtain a' where "host_stream cr md m past a1 cs = Some (Inl err, a')"
          "err = AuthenticationFailure \<longrightarrow> decrypt_err a'" by auto
        then show ?thesis
          unfolding so Inl using a1(1) by (simp add: Cons)
      next
        case (Inr q)
        obtain o2 l2 v2 where q: "q = (o2, l2, v2)" by (cases q)
        with IH Inr obtain a' where "host_stream cr md m past a1 cs = Some (Inr o2, a')" by auto
        then show ?thesis
          unfolding so Inr q using a1(1) by (simp add: Cons)
      qed
    qed
  qed
qed

lemma seal_block_split:
  assumes ok: "openssl_ok cr"
  shows "\<exists>iv ct tag. seal_block cr km ke v pt = (iv @ ct) @ tag \<and>
           length iv = 16 \<and> length ct = (length pt div 16) * 16 + 16 \<and> length tag = 32 \<and>
           ct = cbc_pkcs_encrypt cr ke iv pt \<and> tag = take 32 (HMAC cr EVP_sha512 km (iv @ ct))"
proof -
  define iv where "iv = take 16 (HMAC cr EVP_sha1 km (v @ pt))"
  define ct where "ct = cbc_pkcs_encrypt cr ke iv pt"
  define tag where "tag = take 32 (HMAC cr EVP_sha512 km (iv @ ct))"
  have "seal_block cr km ke v pt = (iv @ ct) @ tag"
    by (simp add: seal_block_def Let_def iv_def ct_def tag_def)
  moreover have liv: "length iv = 16" using hmac_sizes(1) [OF ok] by (simp add: iv_def)
  moreover have "length ct = (length pt div 16) * 16 + 16"
    unfolding ct_def by (rule cbc_pkcs_encrypt_length [OF ok liv])
  moreover have "length tag = 32" using hmac_sizes(2) [OF ok] by (simp add: tag_def)
  ultimately show ?thesis using ct_def tag_def by blast
qed

lemma seal_block_length:
  "openssl_ok cr \<Longrightarrow> length (seal_block cr km ke v pt) = (length pt div 16) * 16 + 64"
  using seal_block_split [of cr km ke v pt] by auto

lemma open_seal:
  assumes ok: "openssl_ok cr"
  shows "open_block cr km ke (seal_block cr km ke v pt) = Inr pt"
proof -
  from seal_block_split [OF ok, of km ke v pt]
  obtain iv ct tag where p: "seal_block cr km ke v pt = (iv @ ct) @ tag"
    "length iv = 16" "length ct = (length pt div 16) * 16 + 16" "length tag = 32"
    "ct = cbc_pkcs_encrypt cr ke iv pt" "tag = take 32 (HMAC cr EVP_sha512 km (iv @ ct))"
    by blast
  have len: "length ((iv @ ct) @ tag) - 32 = length (iv @ ct)" using p(4) by simp
  have body: "take (length (iv @ ct)) ((iv @ ct) @ tag) = iv @ ct" by simp
  have tagd: "drop (length (iv @ ct)) ((iv @ ct) @ tag) = tag" by simp
  have big: "\<not> length ((iv @ ct) @ tag) < 16 + 32" using p(2,3,4) by simp
  have ivb: "take 16 (iv @ ct) = iv" "drop 16 (iv @ ct) = ct" using p(2) by simp_all
  have rt: "cbc_pkcs_decrypt cr ke iv ct = Some pt"
    unfolding p(5) by (rule cbc_pkcs_roundtrip [OF ok p(2)])
  have "open_block cr km ke ((iv @ ct) @ tag) =
      (if take 32 (HMAC cr EVP_sha512 km (iv @ ct)) \<noteq> tag then Inl AuthenticationFailure
       else case cbc_pkcs_decrypt cr ke iv ct of None \<Rightarrow> Inl AuthenticationFailure | Some pt \<Rightarrow> Inr pt)"
    unfolding open_block_def Let_def len body tagd ivb using big by (simp only: if_False)
  then show ?thesis
    unfolding p(1) using p(6) rt by simp
qed

lemma stream_out_block:
  "bsize_of md \<le> length X \<or> (fin \<and> X \<noteq> []) \<Longrightarrow>
   stream_out cr md km ke fin v X =
     (case block_out cr md km ke v (take (bsize_of md) X) of
        Inl e \<Rightarrow> Inl e
      | Inr (ob, v') \<Rightarrow>
          (case stream_out cr md km ke fin v' (drop (bsize_of md) X) of
             Inl e \<Rightarrow> Inl e
           | Inr (obs, l, v'') \<Rightarrow> Inr (ob @ obs, l, v'')))"
  by (subst stream_out.simps) (simp only: if_P if_True)

lemma stream_out_rest:
  "\<not> (bsize_of md \<le> length X \<or> (fin \<and> X \<noteq> [])) \<Longrightarrow>
   stream_out cr md km ke fin v X = Inr ([], X, v)"
  by (subst stream_out.simps) (simp only: if_not_P if_False)

lemma stream_roundtrip:
  assumes ok: "openssl_ok cr"
  shows "\<exists>C vu. stream_out cr SXF_MODE_UPLOAD km ke True v P = Inr (C, [], vu) \<and>
                stream_out cr SXF_MODE_DOWNLOAD km ke True vd C = Inr (P, [], vd)"
proof (induction "length P" arbitrary: P v rule: less_induct)
  case less
  show ?case
  proof (cases "P = []")
    case True
    then show ?thesis by (simp add: stream_out_Nil)
  next
    case False
    define pt where "pt = take FILTER_BLOCK_SIZE P"
    define W where "W = seal_block cr km ke v pt"
    define v1 where "v1 = chain_ivmac cr km v pt"
    have dec: "length (drop FILTER_BLOCK_SIZE P) < length P" using False by simp
    from less.hyps [OF dec, of v1]
    obtain C' vu where C': "stream_out cr SXF_MODE_UPLOAD km ke True v1 (drop FILTER_BLOCK_SIZE P) = Inr (C', [], vu)"
      "stream_out cr SXF_MODE_DOWNLOAD km ke True vd C' = Inr (drop FILTER_BLOCK_SIZE P, [], vd)"
      by blast
    have bu: "bsize_of SXF_MODE_UPLOAD = FILTER_BLOCK_SIZE" by (simp add: bsize_of_def)
    have bd: "bsize_of SXF_MODE_DOWNLOAD = BUF_SIZE" by (simp add: bsize_of_def)
    have cu: "bsize_of SXF_MODE_UPLOAD \<le> length P \<or> (True \<and> P \<noteq> [])" using False by simp
    have bo: "block_out cr SXF_MODE_UPLOAD km ke v pt = Inr (W, v1)"
      by (simp add: block_out_def W_def v1_def)
    have up: "stream_out cr SXF_MODE_UPLOAD km ke True v P = Inr (W @ C', [], vu)"
      unfolding stream_out_block [OF cu] bu pt_def [symmetric] bo using C'(1) by simp
    have lW: "length W = (length pt div 16) * 16 + 64"
      unfolding W_def by (rule seal_block_length [OF ok])
    have Wne: "W \<noteq> []" using lW by auto
    have opn: "open_block cr km ke W = Inr pt" unfolding W_def by (rule open_seal [OF ok])
    have bod: "block_out cr SXF_MODE_DOWNLOAD km ke vd W = Inr (pt, vd)"
      by (simp add: block_out_def opn)
    have cd: "bsize_of SXF_MODE_DOWNLOAD \<le> length (W @ C') \<or> (True \<and> W @ C' \<noteq> [])"
      using Wne by simp
    have split: "take BUF_SIZE (W @ C') = W" "drop BUF_SIZE (W @ C') = C'"
    proof -
      have "take BUF_SIZE (W @ C') = W \<and> drop BUF_SIZE (W @ C') = C'"
      proof (cases "length P \<le> FILTER_BLOCK_SIZE")
        case True
        then have "drop FILTER_BLOCK_SIZE P = []" by simp
        with C'(1) have "C' = []" by (simp add: stream_out_Nil)
        moreover have "length pt \<le> FILTER_BLOCK_SIZE" by (simp add: pt_def)
        then have "length W \<le> BUF_SIZE" unfolding lW by simp
        ultimately show ?thesis by simp
      next
        case False
        then have "length pt = FILTER_BLOCK_SIZE" by (simp add: pt_def)
        then have "length W = BUF_SIZE" unfolding lW by simp
        then show ?thesis by simp
      qed
      then show "take BUF_SIZE (W @ C') = W" "drop BUF_SIZE (W @ C') = C'" by simp_all
    qed
    have down: "stream_out cr SXF_MODE_DOWNLOAD km ke True vd (W @ C') = Inr (pt @ drop FILTER_BLOCK_SIZE P, [], vd)"
      unfolding stream_out_block [OF cd] bd split bod using C'(2) by simp
    show ?thesis
      using up down by (simp add: pt_def)
  qed
qed

lemma host_stream_all:
  assumes ok: "openssl_ok cr" and m: "0 < m"
    and cs: "\<forall>c \<in> set cs. length c < 2 ^ 32"
    and st: "staged md km ke a [] v 0 False"
    and so: "stream_out cr md km ke True v (concat cs) = Inr (out, l, v')"
  shows "\<exists>a'. host_stream cr md m past a cs = Some (Inr out, a')"
proof (cases "cs = []")
  case True
  with so show ?thesis by (simp add: stream_out_Nil)
next
  case False
  have l0: "length ([]::bytes) < bsize_of md" by (simp add: bsize_pos)
  from host_stream_sem [OF ok m False cs st l0] so show ?thesis by simp
qed

lemma decrypt_block_mismatch:
  assumes ok: "openssl_ok cr"
    and k: "keyed SXF_MODE_DOWNLOAD km ke a"
    and n: "IV_SIZE + MAC_SIZE \<le> inbytes a" "inbytes a \<le> BUF_SIZE"
    and bad: "take 32 (HMAC cr EVP_sha512 km (take (inbytes a - 32) (inbuf a)))
                \<noteq> take 32 (drop (inbytes a - 32) (inbuf a))"
  shows "decrypt_block cr a =
           (Inl AuthenticationFailure,
            a\<lparr>hmac := HMAC_Update (HMAC_Init_reset (hmac a)) (take (inbytes a - 32) (inbuf a)),
              inbytes := inbytes a - 32, decrypt_err := True\<rparr>)"
proof -
  have kk: "length (inbuf a) = BUF_SIZE" "hmd (hmac a) = Some EVP_sha512" "hkey (hmac a) = km"
    using k by (simp_all add: keyed_def)
  define mac where "mac = HMAC cr EVP_sha512 km (take (inbytes a - 32) (inbuf a))"
  have lmac: "length mac = 64" using hmac_sizes(2) [OF ok] by (simp add: mac_def)
  have cmp: "hmac_compare (drop (inbytes a - 32) (inbuf a)) mac 32 \<noteq> 0"
    using hmac_compare_zero_iff [of 32 "drop (inbytes a - 32) (inbuf a)" mac] kk(1) n lmac bad
    by (auto simp: mac_def)
  show ?thesis
    using n lmac cmp
    by (simp add: decrypt_block_def Let_def lib_ok_all [OF ok] kk HMAC_Final_def HMAC_Update_def
        HMAC_Init_reset_def mac_def [symmetric])
qed

section \<open>The chaining state of the IVs\<close>

lemma iv_chain_memcpy:
  assumes "length v = 64" "drop 20 v = replicate 44 0" "length mac = 20"
  shows "memcpy v 0 mac = mac @ replicate 44 0"
    and "length (memcpy v 0 mac) = 64" and "drop 20 (memcpy v 0 mac) = replicate 44 0"
  using assms by (simp_all add: memcpy_def)

lemma encrypt_iv_iv_chain:
  assumes ok: "openssl_ok cr" and j: "iv_chain km a"
  shows "iv_chain km (snd (encrypt_iv cr a))"
proof -
  have f: "length (ivmac a) = 64" "drop 20 (ivmac a) = replicate 44 0"
    "hmd (ivhash a) = Some EVP_sha1" "hkey (ivhash a) = km"
    using j by (simp_all add: iv_chain_def)
  define mac where "mac = HMAC cr EVP_sha1 km (ivmac a @ take (inbytes a) (inbuf a))"
  have lmac: "length mac = 20" using hmac_sizes(1) [OF ok] by (simp add: mac_def)
  note mc = iv_chain_memcpy [OF f(1,2) lmac]
  show ?thesis
    using lmac mc(2,3)
    by (simp add: encrypt_iv_def Let_def lib_ok_all [OF ok] f HMAC_Final_def HMAC_Update_def
        HMAC_Init_reset_def mac_def [symmetric] iv_chain_def)
qed

lemma encrypt_cbc_iv_chain:
  "iv_chain km a \<Longrightarrow> iv_chain km (snd (encrypt_cbc cr a iv))"
  by (simp add: encrypt_cbc_def Let_def iv_chain_def split: prod.splits)

lemma encrypt_tag_iv_chain:
  "iv_chain km a \<Longrightarrow> iv_chain km (snd (encrypt_tag cr a n))"
  by (simp add: encrypt_tag_def Let_def iv_chain_def)

lemma encrypt_block_iv_chain:
  assumes ok: "openssl_ok cr" and j: "iv_chain km a"
  shows "iv_chain km (snd (encrypt_block cr a))"
proof -
  obtain r1 a4 where p1: "encrypt_iv cr a = (r1, a4)" by fastforce
  have j4: "iv_chain km a4" using encrypt_iv_iv_chain [OF ok j] by (simp add: p1)
  show ?thesis
  proof (cases r1)
    case (Inl e)
    then show ?thesis using j4 by (simp add: encrypt_block_def p1)
  next
    case (Inr ivaes)
    obtain r2 a7 where p2: "encrypt_cbc cr a4 ivaes = (r2, a7)" by fastforce
    have j7: "iv_chain km a7" using encrypt_cbc_iv_chain [OF j4, of cr ivaes] by (simp add: p2)
    show ?thesis
    proof (cases r2)
      case (Inl e)
      then show ?thesis using j7 by (simp add: encrypt_block_def p1 p2 Inr)
    next
      case r2: (Inr nf)
      show ?thesis using encrypt_tag_iv_chain [OF j7, of cr nf]
        by (simp add: encrypt_block_def p1 p2 Inr r2)
    qed
  qed
qed

lemma decrypt_block_iv_chain:
  "iv_chain km a \<Longrightarrow> iv_chain km (snd (decrypt_block cr a))"
  by (simp add: decrypt_block_def Let_def iv_chain_def split: prod.splits option.splits)

lemma emit_block_iv_chain:
  "iv_chain km a \<Longrightarrow> iv_chain km (fst (snd (emit_block a n m)))"
  by (simp add: emit_block_def Let_def iv_chain_def)

lemma block_result_iv_chain:
  assumes j: "iv_chain km (snd blkres)"
  shows "iv_chain km (fst (snd (case blkres of
            (Inl err, a3) \<Rightarrow> (Inl err, a3, act)
          | (Inr u, a3) \<Rightarrow> emit_block a3 n m)))"
proof (cases blkres)
  case (Pair r a3)
  with j have j3: "iv_chain km a3" by simp
  show ?thesis
  proof (cases r)
    case (Inl err)
    with Pair j3 show ?thesis by simp
  next
    case (Inr u)
    with Pair emit_block_iv_chain [OF j3, of n m] show ?thesis by simp
  qed
qed

lemma process_iv_chain:
  assumes ok: "openssl_ok cr" and j: "iv_chain km a"
  shows "iv_chain km (fst (snd (aes256_data_process cr a inp past m md act)))"
proof (cases "act = SXF_ACTION_REPEAT \<and> data_out_left a \<noteq> 0")
  case True
  have "iv_chain km (fst (snd (drain_output a (length inp) m act)))"
    using j by (simp add: drain_output_def Let_def iv_chain_def)
  with True show ?thesis by (simp add: aes256_data_process_def Let_def)
next
  case False
  define a1 where "a1 = (if act = SXF_ACTION_DATA_END then a\<lparr>data_end := True\<rparr> else a)"
  have j1: "iv_chain km a1" using j by (simp add: a1_def iv_chain_def)
  define B where "B = (if md = SXF_MODE_UPLOAD then FILTER_BLOCK_SIZE else 16448)"
  define a2 where "a2 = ingest_input a1 inp past B"
  have j2: "iv_chain km a2"
    using j1 by (simp add: a2_def ingest_input_def Let_def iv_chain_def)
  define blkres where
    "blkres = (if md = SXF_MODE_UPLOAD then encrypt_block cr a2 else decrypt_block cr a2)"
  have jb: "iv_chain km (snd blkres)"
    using encrypt_block_iv_chain [OF ok j2] decrypt_block_iv_chain [OF j2, of cr]
    by (simp add: blkres_def)
  have n: "iv_chain km (a2\<lparr>data_in := 0\<rparr>)" using j2 by (simp add: iv_chain_def)
  have proc: "aes256_data_process cr a inp past m md act =
      (if inbytes a2 = B \<or> (inbytes a2 \<noteq> 0 \<and> (act = SXF_ACTION_DATA_END \<or> data_end a2))
       then (case blkres of
               (Inl err, a3) \<Rightarrow> (Inl err, a3, act)
             | (Inr u, a3) \<Rightarrow> emit_block a3 (length inp) m)
       else (Inr [], a2\<lparr>data_in := 0\<rparr>, SXF_ACTION_NORMAL))"
    using False
    unfolding aes256_data_process_def Let_def a1_def [symmetric] blkres_def a2_def B_def
    by (simp only: if_False if_True) (auto split: if_splits)
  show ?thesis
    unfolding proc using block_result_iv_chain [OF jb, of act "length inp" m] n
    by (simp only: split: if_splits) simp
qed

lemma encrypt_iv_result:
  assumes ok: "openssl_ok cr" and j: "iv_chain km a"
  defines "mac \<equiv> HMAC cr EVP_sha1 km (ivmac a @ take (inbytes a) (inbuf a))"
  shows "length mac = 20"
    and "fst (encrypt_iv cr a) = Inr (take 16 mac)"
    and "ivmac (snd (encrypt_iv cr a)) = mac @ replicate 44 0"
proof -
  have f: "length (ivmac a) = 64" "drop 20 (ivmac a) = replicate 44 0"
    "hmd (ivhash a) = Some EVP_sha1" "hkey (ivhash a) = km"
    using j by (simp_all add: iv_chain_def)
  show lmac: "length mac = 20" using hmac_sizes(1) [OF ok] by (simp add: mac_def)
  note mc = iv_chain_memcpy [OF f(1,2) lmac]
  show "fst (encrypt_iv cr a) = Inr (take 16 mac)"
    using lmac
    by (simp add: encrypt_iv_def Let_def lib_ok_all [OF ok] f HMAC_Final_def HMAC_Update_def
        HMAC_Init_reset_def mac_def [symmetric])
  show "ivmac (snd (encrypt_iv cr a)) = mac @ replicate 44 0"
    using lmac mc(1)
    by (simp add: encrypt_iv_def Let_def lib_ok_all [OF ok] f HMAC_Final_def HMAC_Update_def
        HMAC_Init_reset_def mac_def [symmetric])
qed

lemma encrypt_cbc_ivmac: "ivmac (snd (encrypt_cbc cr a iv)) = ivmac a"
  by (simp add: encrypt_cbc_def Let_def split: prod.splits)

lemma encrypt_tag_ivmac: "ivmac (snd (encrypt_tag cr a n)) = ivmac a"
  by (simp add: encrypt_tag_def Let_def)

lemma encrypt_block_ivmac:
  assumes "fst (encrypt_iv cr a) = Inr iv"
  shows "ivmac (snd (encrypt_block cr a)) = ivmac (snd (encrypt_iv cr a))"
proof -
  obtain a4 where p1: "encrypt_iv cr a = (Inr iv, a4)" using assms by (cases "encrypt_iv cr a") simp
  obtain r2 a7 where p2: "encrypt_cbc cr a4 iv = (r2, a7)" by fastforce
  have i7: "ivmac a7 = ivmac a4" using encrypt_cbc_ivmac [of cr a4 iv] by (simp add: p2)
  show ?thesis
  proof (cases r2)
    case (Inl e)
    then show ?thesis using i7 by (simp add: encrypt_block_def p1 p2)
  next
    case (Inr nf)
    then show ?thesis using i7 encrypt_tag_ivmac [of cr a7 nf] by (simp add: encrypt_block_def p1 p2)
  qed
qed

lemma init_contexts_iv_chain:
  assumes "length K = KEY_SIZE"
    and "init_contexts ev K kf mode w = (Inr a, w')"
  shows "ivmac a = replicate 64 0" and "iv_chain (take 32 K) a"
  using assms
  by (auto simp: init_contexts_def Let_def iv_chain_def calloc_aes256_ctx_def memcpy_def
      HMAC_Init_ex_def HMAC_CTX_init_def split: if_splits)

lemma ingest_iv_chain:
  "iv_chain km a \<Longrightarrow>
   iv_chain km (ingest_input (if act = SXF_ACTION_DATA_END then a\<lparr>data_end := True\<rparr> else a) inp past n)"
  by (simp add: ingest_input_def Let_def iv_chain_def)

lemma ingest_ivmac:
  "ivmac (ingest_input (if act = SXF_ACTION_DATA_END then a\<lparr>data_end := True\<rparr> else a) inp past n)
     = ivmac a"
  by (simp add: ingest_input_def Let_def)

lemma take_memcpy_keep:
  assumes "n \<le> off" "n \<le> length dst"
  shows "take n (memcpy dst off src) = take n dst" and "n \<le> length (memcpy dst off src)"
  using assms by (simp_all add: memcpy_def min_def)

lemma encrypt_iv_blk:
  assumes ok: "openssl_ok cr" and j: "iv_chain km a" and l: "16 \<le> length (blk a)"
  defines "mac \<equiv> HMAC cr EVP_sha1 km (ivmac a @ take (inbytes a) (inbuf a))"
  shows "take 16 (blk (snd (encrypt_iv cr a))) = take 16 mac"
    and "16 \<le> length (blk (snd (encrypt_iv cr a)))"
proof -
  have f: "hmd (ivhash a) = Some EVP_sha1" "hkey (ivhash a) = km"
    using j by (simp_all add: iv_chain_def)
  have lmac: "length mac = 20" using hmac_sizes(1) [OF ok] by (simp add: mac_def)
  have b: "blk (snd (encrypt_iv cr a)) = memcpy (blk a) 0 (take 16 mac)"
    using lmac
    by (simp add: encrypt_iv_def Let_def lib_ok_all [OF ok] f HMAC_Final_def HMAC_Update_def
        HMAC_Init_reset_def mac_def [symmetric])
  show "take 16 (blk (snd (encrypt_iv cr a))) = take 16 mac"
    using lmac l by (simp add: b memcpy_def)
  show "16 \<le> length (blk (snd (encrypt_iv cr a)))"
    using lmac l by (simp add: b memcpy_def)
qed

lemma encrypt_cbc_blk:
  assumes l: "16 \<le> length (blk a)"
  shows "take 16 (blk (snd (encrypt_cbc cr a iv))) = take 16 (blk a)"
    and "16 \<le> length (blk (snd (encrypt_cbc cr a iv)))"
    and "fst (encrypt_cbc cr a iv) = Inr nf \<Longrightarrow> 16 \<le> blkbytes (snd (encrypt_cbc cr a iv))"
proof -
  obtain upd e1 where
    U: "EVP_EncryptUpdate cr (EVP_CipherInit_iv (ectx a) iv) (take (inbytes a) (inbuf a)) = (upd, e1)"
    by fastforce
  define fin where "fin = EVP_EncryptFinal_ex cr e1"
  note k1 = take_memcpy_keep [OF order_refl l, of upd]
  have le: "(16::nat) \<le> length upd + 16" by simp
  note k2 = take_memcpy_keep [OF le k1(2), of fin]
  show "take 16 (blk (snd (encrypt_cbc cr a iv))) = take 16 (blk a)"
    using k1 k2 l by (simp add: encrypt_cbc_def Let_def U fin_def [symmetric])
  show "16 \<le> length (blk (snd (encrypt_cbc cr a iv)))"
    using k1 k2 l by (simp add: encrypt_cbc_def Let_def U fin_def [symmetric])
  show "fst (encrypt_cbc cr a iv) = Inr nf \<Longrightarrow> 16 \<le> blkbytes (snd (encrypt_cbc cr a iv))"
    by (simp add: encrypt_cbc_def Let_def U fin_def [symmetric] split: if_splits)
qed

lemma encrypt_tag_blk:
  assumes l: "16 \<le> length (blk a)" and b: "16 \<le> blkbytes a"
  shows "take 16 (blk (snd (encrypt_tag cr a n))) = take 16 (blk a)"
    and "16 \<le> length (blk (snd (encrypt_tag cr a n)))"
    and "fst (encrypt_tag cr a n) = Inr u \<Longrightarrow> 16 \<le> blkbytes (snd (encrypt_tag cr a n))"
proof -
  have le: "16 \<le> blkbytes a + n" using b by simp
  note k = take_memcpy_keep [OF le l]
  show "take 16 (blk (snd (encrypt_tag cr a n))) = take 16 (blk a)"
    using k l by (simp add: encrypt_tag_def Let_def)
  show "16 \<le> length (blk (snd (encrypt_tag cr a n)))"
    using k l by (simp add: encrypt_tag_def Let_def)
  show "fst (encrypt_tag cr a n) = Inr u \<Longrightarrow> 16 \<le> blkbytes (snd (encrypt_tag cr a n))"
    using b by (simp add: encrypt_tag_def Let_def split: if_splits)
qed

lemma encrypt_block_blk:
  assumes ok: "openssl_ok cr" and j: "iv_chain km a" and l: "16 \<le> length (blk a)"
  defines "mac \<equiv> HMAC cr EVP_sha1 km (ivmac a @ take (inbytes a) (inbuf a))"
  shows "take 16 (blk (snd (encrypt_block cr a))) = take 16 mac"
    and "16 \<le> length (blk (snd (encrypt_block cr a)))"
    and "fst (encrypt_block cr a) = Inr u \<Longrightarrow> 16 \<le> blkbytes (snd (encrypt_block cr a))"
proof -
  note r = encrypt_iv_result [OF ok j, folded mac_def]
  obtain a4 where p1: "encrypt_iv cr a = (Inr (take 16 mac), a4)"
    using r(2) by (cases "encrypt_iv cr a") simp
  have b4: "take 16 (blk a4) = take 16 mac" "16 \<le> length (blk a4)"
    using encrypt_iv_blk [OF ok j l, folded mac_def] by (simp_all add: p1)
  obtain r2 a7 where p2: "encrypt_cbc cr a4 (take 16 mac) = (r2, a7)" by fastforce
  have b7: "take 16 (blk a7) = take 16 mac" "16 \<le> length (blk a7)"
    using encrypt_cbc_blk(1,2) [OF b4(2), where cr = cr and iv = "take 16 mac"] b4(1) by (simp_all add: p2)
  have all: "take 16 (blk (snd (encrypt_block cr a))) = take 16 mac \<and>
        16 \<le> length (blk (snd (encrypt_block cr a))) \<and>
        (fst (encrypt_block cr a) = Inr u \<longrightarrow> 16 \<le> blkbytes (snd (encrypt_block cr a)))"
  proof (cases r2)
    case (Inl e)
    then show ?thesis using b7 by (simp add: encrypt_block_def p1 p2)
  next
    case (Inr nf)
    have bb: "16 \<le> blkbytes a7"
      using encrypt_cbc_blk(3) [OF b4(2), where cr = cr and iv = "take 16 mac" and nf = nf] by (simp add: p2 Inr)
    have e: "encrypt_block cr a = encrypt_tag cr a7 nf" by (simp add: encrypt_block_def p1 p2 Inr)
    show ?thesis
      unfolding e
      using encrypt_tag_blk(1,2) [OF b7(2) bb, where cr = cr and n = nf]
        encrypt_tag_blk(3) [OF b7(2) bb, where cr = cr and n = nf and u = u] b7(1)
      by simp
  qed
  then show "take 16 (blk (snd (encrypt_block cr a))) = take 16 mac"
    and "16 \<le> length (blk (snd (encrypt_block cr a)))"
    and "fst (encrypt_block cr a) = Inr u \<Longrightarrow> 16 \<le> blkbytes (snd (encrypt_block cr a))"
    by simp_all
qed

lemma emit_block_frame:
  "ivmac (fst (snd (emit_block a n m))) = ivmac a"
  "blk (fst (snd (emit_block a n m))) = blk a"
  by (simp_all add: emit_block_def Let_def)

lemma emit_block_out:
  assumes "fst (emit_block a n m) = Inr out" "16 \<le> m" "16 \<le> blkbytes a"
  shows "take 16 out = take 16 (blk a)"
  using assms by (auto simp: emit_block_def Let_def min_def split: if_splits)

lemma process_unfold:
  "aes256_data_process cr a inp past m md act =
     (if act = SXF_ACTION_REPEAT \<and> data_out_left a \<noteq> 0
      then drain_output a (length inp) m act
      else if inbytes (ingest_input (if act = SXF_ACTION_DATA_END then a\<lparr>data_end := True\<rparr> else a)
                         inp past (bsize_of md)) = bsize_of md
              \<or> (inbytes (ingest_input (if act = SXF_ACTION_DATA_END then a\<lparr>data_end := True\<rparr> else a)
                         inp past (bsize_of md)) \<noteq> 0
                 \<and> (act = SXF_ACTION_DATA_END
                    \<or> data_end (ingest_input (if act = SXF_ACTION_DATA_END then a\<lparr>data_end := True\<rparr> else a)
                         inp past (bsize_of md))))
      then (case (if md = SXF_MODE_UPLOAD
                  then encrypt_block cr (ingest_input (if act = SXF_ACTION_DATA_END then a\<lparr>data_end := True\<rparr> else a)
                         inp past (bsize_of md))
                  else decrypt_block cr (ingest_input (if act = SXF_ACTION_DATA_END then a\<lparr>data_end := True\<rparr> else a)
                         inp past (bsize_of md))) of
              (Inl e, a3) \<Rightarrow> (Inl e, a3, act)
            | (Inr u, a3) \<Rightarrow> emit_block a3 (length inp) m)
      else (Inr [], (ingest_input (if act = SXF_ACTION_DATA_END then a\<lparr>data_end := True\<rparr> else a)
                         inp past (bsize_of md))\<lparr>data_in := 0\<rparr>, SXF_ACTION_NORMAL))"
  unfolding aes256_data_process_def Let_def bsize_of_def by (rule refl)

text \<open>A call in upload mode that completes a block.\<close>

lemma process_upload_block:
  fixes inp :: bytes and past :: "nat \<Rightarrow> byte" and act :: sxf_action and m :: nat
  assumes ok: "openssl_ok cr" and j: "iv_chain km a" and l: "16 \<le> length (blk a)"
    and nd: "\<not> (act = SXF_ACTION_REPEAT \<and> data_out_left a \<noteq> 0)"
  defines "a2 \<equiv> ingest_input (if act = SXF_ACTION_DATA_END then a\<lparr>data_end := True\<rparr> else a)
                   inp past FILTER_BLOCK_SIZE"
  assumes trig: "inbytes a2 = FILTER_BLOCK_SIZE
                 \<or> (inbytes a2 \<noteq> 0 \<and> (act = SXF_ACTION_DATA_END \<or> data_end a2))"
  defines "mac \<equiv> HMAC cr EVP_sha1 km (ivmac a @ take (inbytes a2) (inbuf a2))"
  defines "r \<equiv> aes256_data_process cr a inp past m SXF_MODE_UPLOAD act"
  shows "ivmac (fst (snd r)) = mac @ replicate 44 0"
    and "take 16 (blk (fst (snd r))) = take 16 mac"
    and "fst r = Inr out \<Longrightarrow> 16 \<le> m \<Longrightarrow> take 16 out = take 16 mac"
proof -
  have j2: "iv_chain km a2" unfolding a2_def by (rule ingest_iv_chain [OF j])
  have i2: "ivmac a2 = ivmac a" unfolding a2_def by (rule ingest_ivmac)
  have l2: "16 \<le> length (blk a2)" using l by (simp add: a2_def ingest_input_def Let_def)
  note iv = encrypt_iv_result [OF ok j2, unfolded i2, folded mac_def]
  have m1: "ivmac (snd (encrypt_block cr a2)) = mac @ replicate 44 0"
    using encrypt_block_ivmac [OF iv(2)] iv(3) by simp
  note bl = encrypt_block_blk [OF ok j2 l2, unfolded i2, folded mac_def]
  have a2': "ingest_input (if act = SXF_ACTION_DATA_END then a\<lparr>data_end := True\<rparr> else a)
               inp past (bsize_of SXF_MODE_UPLOAD) = a2"
    by (simp add: a2_def bsize_of_def)
  have proc: "r = (case encrypt_block cr a2 of
                     (Inl e, a3) \<Rightarrow> (Inl e, a3, act)
                   | (Inr u, a3) \<Rightarrow> emit_block a3 (length inp) m)"
    unfolding r_def process_unfold a2' using nd trig by (auto simp add: bsize_of_def)
  obtain res a3 where e: "encrypt_block cr a2 = (res, a3)" by fastforce
  have f3: "ivmac a3 = mac @ replicate 44 0" "take 16 (blk a3) = take 16 mac"
    using m1 bl(1) by (simp_all add: e)
  show "ivmac (fst (snd r)) = mac @ replicate 44 0"
    using f3 by (cases res) (simp_all add: proc e emit_block_frame)
  show "take 16 (blk (fst (snd r))) = take 16 mac"
    using f3 by (cases res) (simp_all add: proc e emit_block_frame)
  show "take 16 out = take 16 mac" if o: "fst r = Inr out" and m: "16 \<le> m"
  proof (cases res)
    case (Inl err)
    with o show ?thesis by (simp add: proc e)
  next
    case (Inr u)
    have bb: "16 \<le> blkbytes a3" using bl(3) [of u] by (simp add: e Inr)
    from o have "fst (emit_block a3 (length inp) m) = Inr out" by (simp add: proc e Inr)
    from emit_block_out [OF this m bb] f3(2) show ?thesis by simp
  qed
qed

text \<open>A call that drains or that completes no block leaves the chaining state alone.\<close>

lemma process_no_block:
  fixes inp :: bytes and past :: "nat \<Rightarrow> byte" and act :: sxf_action and md :: sxf_mode
    and a :: aes256_ctx
  defines "a2 \<equiv> ingest_input (if act = SXF_ACTION_DATA_END then a\<lparr>data_end := True\<rparr> else a)
                   inp past (bsize_of md)"
  assumes "(act = SXF_ACTION_REPEAT \<and> data_out_left a \<noteq> 0) \<or>
           \<not> (inbytes a2 = bsize_of md
              \<or> (inbytes a2 \<noteq> 0 \<and> (act = SXF_ACTION_DATA_END \<or> data_end a2)))"
  shows "ivmac (fst (snd (aes256_data_process cr a inp past m md act))) = ivmac a"
proof (cases "act = SXF_ACTION_REPEAT \<and> data_out_left a \<noteq> 0")
  case True
  have "ivmac (fst (snd (drain_output a (length inp) m act))) = ivmac a"
    by (simp add: drain_output_def Let_def)
  with True show ?thesis by (simp add: aes256_data_process_def Let_def)
next
  case False
  have i2: "ivmac a2 = ivmac a" unfolding a2_def by (rule ingest_ivmac)
  have nt: "\<not> (inbytes a2 = bsize_of md \<or> (inbytes a2 \<noteq> 0 \<and> (act = SXF_ACTION_DATA_END \<or> data_end a2)))"
    using assms(2) False by blast
  have "aes256_data_process cr a inp past m md act = (Inr [], a2\<lparr>data_in := 0\<rparr>, SXF_ACTION_NORMAL)"
    unfolding process_unfold a2_def [symmetric] using False nt by auto
  then show ?thesis by (simp add: i2)
qed

lemma process_upload_blk_length:
  assumes ok: "openssl_ok cr" and j: "iv_chain km a" and l: "16 \<le> length (blk a)"
  shows "16 \<le> length (blk (fst (snd (aes256_data_process cr a inp past m SXF_MODE_UPLOAD act))))"
proof (cases "act = SXF_ACTION_REPEAT \<and> data_out_left a \<noteq> 0")
  case True
  have "blk (fst (snd (drain_output a (length inp) m act))) = blk a"
    by (simp add: drain_output_def Let_def)
  with True l show ?thesis by (simp add: aes256_data_process_def Let_def)
next
  case False
  define a2 where "a2 = ingest_input (if act = SXF_ACTION_DATA_END then a\<lparr>data_end := True\<rparr> else a)
                         inp past FILTER_BLOCK_SIZE"
  have j2: "iv_chain km a2" unfolding a2_def by (rule ingest_iv_chain [OF j])
  have l2: "16 \<le> length (blk a2)" using l by (simp add: a2_def ingest_input_def Let_def)
  note bl = encrypt_block_blk(2) [OF ok j2 l2]
  have a2': "ingest_input (if act = SXF_ACTION_DATA_END then a\<lparr>data_end := True\<rparr> else a)
               inp past (bsize_of SXF_MODE_UPLOAD) = a2"
    by (simp add: a2_def bsize_of_def)
  have bs: "bsize_of SXF_MODE_UPLOAD = 16384" by (simp add: bsize_of_def)
  obtain res a3 where e: "encrypt_block cr a2 = (res, a3)" by fastforce
  have l3: "16 \<le> length (blk a3)" using bl by (simp add: e)
  have "aes256_data_process cr a inp past m SXF_MODE_UPLOAD act =
        (if inbytes a2 = FILTER_BLOCK_SIZE
            \<or> (inbytes a2 \<noteq> 0 \<and> (act = SXF_ACTION_DATA_END \<or> data_end a2))
         then (case encrypt_block cr a2 of
                 (Inl e, a3) \<Rightarrow> (Inl e, a3, act)
               | (Inr u, a3) \<Rightarrow> emit_block a3 (length inp) m)
         else (Inr [], a2\<lparr>data_in := 0\<rparr>, SXF_ACTION_NORMAL))"
    unfolding process_unfold bs a2_def [symmetric] using False by auto
  then show ?thesis
    using l2 l3 by (cases res) (simp_all add: e emit_block_frame)
qed

lemma process_calls_upload_inv:
  "openssl_ok cr \<Longrightarrow> iv_chain km a \<Longrightarrow> 16 \<le> length (blk a) \<Longrightarrow>
   iv_chain km (process_calls cr SXF_MODE_UPLOAD a calls) \<and>
   16 \<le> length (blk (process_calls cr SXF_MODE_UPLOAD a calls))"
proof (induction calls arbitrary: a)
  case Nil
  then show ?case by simp
next
  case (Cons c calls)
  obtain inp past m act where c: "c = (inp, past, m, act)" by (cases c)
  from Cons.IH [OF Cons.prems(1) process_iv_chain [OF Cons.prems(1,2), of inp past m SXF_MODE_UPLOAD act]
      process_upload_blk_length [OF Cons.prems, of inp past m act]]
  show ?case by (simp add: c)
qed

lemma init_contexts_blk:
  "init_contexts ev K kf mode w = (Inr a, w') \<Longrightarrow> length (blk a) = 16448"
  by (auto simp: init_contexts_def Let_def calloc_aes256_ctx_def split: if_splits)

lemma example_first_call:
  "\<exists>a'. aes256_data_process toy_crypto (example_ctx SXF_MODE_UPLOAD) example_plain past 100
           SXF_MODE_UPLOAD SXF_ACTION_DATA_END
         = (Inr (seal_block toy_crypto (replicate 32 1) (replicate 32 0) (replicate 64 0) example_plain),
            a', SXF_ACTION_DATA_END)"
proof -
  have len: "length ([]::bytes) \<le> bsize_of SXF_MODE_UPLOAD" by simp
  have d: "0 \<le> length example_plain" "length example_plain < 2 ^ 32"
    by (simp_all add: example_plain_length)
  have W: "[] @ take (min (bsize_of SXF_MODE_UPLOAD - length ([]::bytes)) (length example_plain - 0))
             (drop 0 example_plain) = example_plain"
    by (simp add: bsize_of_def example_plain_length)
  have ne: "example_plain \<noteq> []" by (simp add: example_plain_def)
  from process_step [OF toy_crypto_ok example_ctx_staged [of SXF_MODE_UPLOAD] len d,
      where act = SXF_ACTION_DATA_END and m = 100 and past = past, unfolded W] ne
  obtain a3 where a3:
    "aes256_data_process toy_crypto (example_ctx SXF_MODE_UPLOAD) example_plain past 100
       SXF_MODE_UPLOAD SXF_ACTION_DATA_END = emit_block a3 (length example_plain) 100"
    "pending SXF_MODE_UPLOAD (replicate 32 1) (replicate 32 0) a3
       (seal_block toy_crypto (replicate 32 1) (replicate 32 0) (replicate 64 0) example_plain) 0
       (chain_ivmac toy_crypto (replicate 32 1) (replicate 64 0) example_plain)
       (length example_plain) True"
    by (auto simp: block_out_def bsize_of_def example_plain_length)
  have l: "length (seal_block toy_crypto (replicate 32 1) (replicate 32 0) (replicate 64 0)
             example_plain) \<le> 100"
    by (simp add: seal_block_length [OF toy_crypto_ok] example_plain_length)
  from emit_pending(2) [OF a3(2) l refl] show ?thesis by (auto simp: a3(1))
qed

section \<open>A buffer longer than a block\<close>


section \<open>The errors of the parts of aes256_data_prepare\<close>

lemma fst_case_prod_ne: "(\<And>a b. fst (f a b) \<noteq> e) \<Longrightarrow> fst (case p of (a, b) \<Rightarrow> f a b) \<noteq> e"
  by (cases p) simp

lemma fst_if_ne: "fst x \<noteq> e \<Longrightarrow> fst y \<noteq> e \<Longrightarrow> fst (if c then x else y) \<noteq> e"
  by simp


lemma acquire_key_error:
  "fst (acquire_key ev cfgdir mode l w) \<noteq> Inl ConfigurationError"
  unfolding acquire_key_def Let_def
  by (intro fst_if_ne fst_case_prod_ne) simp_all

lemma init_contexts_error:
  "fst (init_contexts ev K kf mode w) \<noteq> Inl ConfigurationError"
  by (simp add: init_contexts_def Let_def)



text \<open>What follows the dispatch on the blob.\<close>

lemma key_and_contexts_error:
  "fst (case acquire_key ev cfgdir mode l w2 of
          (Inl e, w3) \<Rightarrow> (Inl e, w3)
        | (Inr (K, kf), w3) \<Rightarrow> init_contexts ev K kf mode w3) \<noteq> Inl ConfigurationError"
proof (cases "acquire_key ev cfgdir mode l w2")
  case (Pair r w3)
  show ?thesis
  proof (cases r)
    case (Inl e)
    with Pair acquire_key_error [where ev = ev and cfgdir = cfgdir and mode = mode and l = l and w = w2] show ?thesis by simp
  next
    case (Inr p)
    obtain K kf where p: "p = (K, kf)" by (cases p)
    from Pair Inr p init_contexts_error [where ev = ev and K = K and kf = kf and mode = mode and w = w3] show ?thesis by simp
  qed
qed


section \<open>A first upload without a blob\<close>

lemma persist_key_custom_meta: "custom_meta (persist_key ev kf K w) = custom_meta w"
  by (simp add: persist_key_def WARN_def unlink_def Let_def)

lemma init_contexts_world:
  "init_contexts ev K kf mode w = (Inr a, w') \<Longrightarrow> w' = w"
  by (auto simp: init_contexts_def Let_def split: if_splits)

lemma acquire_key_fresh:
  assumes "\<not> keyread l" "\<not> have_fp l" "files w (cfgdir @ ''/key'') = None"
    and "acquire_key ev cfgdir mode l w = (Inr (K, kf), w')"
  shows "\<exists>fp. custom_meta w' ''aes256_fp'' = Some (take 16 (salt_l l) @ fp)"
proof -
  define w2 where
    "w2 = NOTICE ''First upload to the encrypted volume, set the volume password now'' w"
  obtain ret K1 w3 where gp:
    "getpassword_loop ev (mode = SXF_MODE_UPLOAD) mode (key_l l) (salt_l l) w2 = ((ret, K1), w3)"
    by (metis surj_pair)
  obtain r new_fp w4 where kf: "keyfp ev K1 None w3 = ((r, new_fp), w4)" by (metis surj_pair)
  from assms show ?thesis
    by (auto simp: acquire_key_def Let_def w2_def [symmetric] gp kf persist_key_custom_meta
        split: if_splits)
qed

lemma example_fresh_prepare:
  "\<exists>a w'. aes256_data_prepare toy_env ''cfg'' None SXF_MODE_UPLOAD example_fresh_world = (Inr a, w')"
proof -
  let ?w = "example_fresh_world"
  have gp1: "getpassword toy_env True SXF_MODE_UPLOAD K salt
               (NOTICE ''First upload to the encrypted volume, set the volume password now'' ?w)
             = ((0, memcpy K 0 (take 64 (map of_char (''$2a$14$'' @ ''password1'') @ replicate 64 0))),
                (NOTICE ''First upload to the encrypted volume, set the volume password now'' ?w)
                  \<lparr>inputs := []\<rparr>)" for K salt
    by (simp add: getpassword_def sxc_filter_get_input_def NOTICE_def example_fresh_world_def
        derive_key_def toy_env_fields toy_lib_ok Let_def)
  have gp: "getpassword_loop toy_env True SXF_MODE_UPLOAD K salt
               (NOTICE ''First upload to the encrypted volume, set the volume password now'' ?w)
             = ((0, memcpy K 0 (take 64 (map of_char (''$2a$14$'' @ ''password1'') @ replicate 64 0))),
                (NOTICE ''First upload to the encrypted volume, set the volume password now'' ?w)
                  \<lparr>inputs := []\<rparr>)" for K salt
    by (subst getpassword_loop.simps) (simp add: gp1)
  have kf: "fst (fst (keyfp toy_env K None w)) = 0" for K w
    by (simp add: keyfp_def derive_key_def toy_env_fields toy_lib_ok Let_def)
  have nf: "files ?w ''cfg/key'' = None" "custom_meta ?w ''aes256_fp'' = None"
    by (simp_all add: example_fresh_world_def)
  have ak: "\<exists>K kf w'. acquire_key toy_env ''cfg'' SXF_MODE_UPLOAD
              \<lparr>keyread = False, key_l = replicate 64 0xAA, salt_l = replicate 16 0xBB,
                fp_l = replicate 80 0xCC, have_fp = False\<rparr> ?w = (Inr (K, kf), w')"
    by (simp add: acquire_key_def Let_def nf toy_env_fields gp kf case_prod_unfold)
  then obtain K kf w' where ak': "acquire_key toy_env ''cfg'' SXF_MODE_UPLOAD
              \<lparr>keyread = False, key_l = replicate 64 0xAA, salt_l = replicate 16 0xBB,
                fp_l = replicate 80 0xCC, have_fp = False\<rparr> ?w = (Inr (K, kf), w')"
    by blast
  have ic: "\<exists>a. init_contexts toy_env K kf SXF_MODE_UPLOAD w' = (Inr a, w')"
    by (simp add: init_contexts_def toy_env_fields toy_lib_ok Let_def)
  show ?thesis
    using ic by (auto simp: aes256_data_prepare_def toy_version Let_def nf blob_dispatch_def
        toy_env_fields ak')
qed

section \<open>The key file cannot make aes256_data_prepare fail\<close>

lemma same_but_key_cache_refl: "same_but_key_cache kf w w"
  by (simp add: same_but_key_cache_def)

lemma env_io_fields:
  "libcrypto (ev\<lparr>io_ok := f\<rparr>) = libcrypto ev"
  "SHA512 (ev\<lparr>io_ok := f\<rparr>) = SHA512 ev"
  "SHA256 (ev\<lparr>io_ok := f\<rparr>) = SHA256 ev"
  "sxi_derive_key (ev\<lparr>io_ok := f\<rparr>) = sxi_derive_key ev"
  "sxi_bin2hex (ev\<lparr>io_ok := f\<rparr>) = sxi_bin2hex ev"
  "RAND_pseudo_bytes (ev\<lparr>io_ok := f\<rparr>) = RAND_pseudo_bytes ev"
  "SSLeay (ev\<lparr>io_ok := f\<rparr>) = SSLeay ev"
  "SSLEAY_VERSION_NUMBER (ev\<lparr>io_ok := f\<rparr>) = SSLEAY_VERSION_NUMBER ev"
  "malloc_ok (ev\<lparr>io_ok := f\<rparr>) = malloc_ok ev"
  "meta_setval_ok (ev\<lparr>io_ok := f\<rparr>) = meta_setval_ok ev"
  "stack_key (ev\<lparr>io_ok := f\<rparr>) = stack_key ev"
  "stack_salt (ev\<lparr>io_ok := f\<rparr>) = stack_salt ev"
  "stack_fp (ev\<lparr>io_ok := f\<rparr>) = stack_fp ev"
  "stack_after_custfp (ev\<lparr>io_ok := f\<rparr>) = stack_after_custfp ev"
  "io_ok (ev\<lparr>io_ok := f\<rparr>) = f"
  by simp_all

lemma derive_key_io:
  "derive_key (ev\<lparr>io_ok := f\<rparr>) pass salt out n w = derive_key ev pass salt out n w"
  unfolding derive_key_def env_io_fields by (rule refl)

lemma getpassword_io:
  "getpassword (ev\<lparr>io_ok := f\<rparr>) rep mode K salt w = getpassword ev rep mode K salt w"
  unfolding getpassword_def derive_key_io by (rule refl)

lemma getpassword_loop_io:
  "getpassword_loop (ev\<lparr>io_ok := f\<rparr>) rep mode K salt w = getpassword_loop ev rep mode K salt w"
proof (induction ev rep mode K salt w rule: getpassword_loop.induct)
  case (1 ev rep mode K salt w)
  obtain ret K' w' where g: "getpassword ev rep mode K salt w = ((ret, K'), w')"
    by (metis surj_pair)
  show ?case
  proof (cases "ret = 1")
    case True
    from 1 [OF g [symmetric] refl True] show ?thesis
      by (subst getpassword_loop.simps, subst (2) getpassword_loop.simps)
        (simp add: getpassword_io g True)
  next
    case False
    then show ?thesis
      by (subst getpassword_loop.simps, subst (2) getpassword_loop.simps)
        (simp add: getpassword_io g)
  qed
qed

lemma keyfp_io: "keyfp (ev\<lparr>io_ok := f\<rparr>) K cur w = keyfp ev K cur w"
  unfolding keyfp_def derive_key_io env_io_fields by (rule refl)

lemma blob_dispatch_io:
  "blob_dispatch (ev\<lparr>io_ok := f\<rparr>) cfgdata mode l w = blob_dispatch ev cfgdata mode l w"
  unfolding blob_dispatch_def getpassword_loop_io by (rule refl)

lemma custfp_reconcile_io:
  assumes "\<forall>c. c \<notin> {Io_key_open_wr, Io_key_write, Io_key_close} \<longrightarrow> f c = io_ok ev c"
  shows "custfp_reconcile (ev\<lparr>io_ok := f\<rparr>) cfgdir md w = custfp_reconcile ev cfgdir md w"
proof -
  have fc: "f Io_custfp_create = io_ok ev Io_custfp_create"
    "f Io_custfp_write = io_ok ev Io_custfp_write" "f Io_custfp_open = io_ok ev Io_custfp_open"
    "f Io_custfp_read = io_ok ev Io_custfp_read" "f Io_custfp_close = io_ok ev Io_custfp_close"
    "f Io_custfp_unlink = io_ok ev Io_custfp_unlink" "f Io_key_unlink = io_ok ev Io_key_unlink"
    using assms by simp_all
  show ?thesis
    unfolding custfp_reconcile_def unlink_def env_io_fields fc by (rule refl)
qed

lemma version_mismatch_io: "version_mismatch (ev\<lparr>io_ok := f\<rparr>) = version_mismatch ev"
  by (simp add: version_mismatch_def)

lemma persist_key_io:
  "same_but_key_cache kf (persist_key ev' kf K w) (persist_key ev kf K w)"
  by (simp add: persist_key_def same_but_key_cache_def WARN_def unlink_def Let_def)

lemma init_contexts_io:
  assumes "same_but_key_cache p w' w"
  shows "fst (init_contexts (ev\<lparr>io_ok := f\<rparr>) K kf mode w') = fst (init_contexts ev K kf mode w)"
    and "same_but_key_cache p (snd (init_contexts (ev\<lparr>io_ok := f\<rparr>) K kf mode w'))
           (snd (init_contexts ev K kf mode w))"
  using assms by (simp_all add: init_contexts_def Let_def same_but_key_cache_def ERROR_def)

lemma mem_if: "(x, y) \<in> S \<Longrightarrow> (x', y') \<in> S \<Longrightarrow> (if c then x else x', if c then y else y') \<in> S"
  by simp

lemma mem_case_prod:
  "(\<And>a b. (f a b, g a b) \<in> S) \<Longrightarrow> (case p of (a, b) \<Rightarrow> f a b, case p of (a, b) \<Rightarrow> g a b) \<in> S"
  by (cases p) simp

lemma mem_case_sum:
  "(\<And>a. (f a, g a) \<in> S) \<Longrightarrow> (\<And>b. (f' b, g' b) \<in> S) \<Longrightarrow>
   (case s of Inl a \<Rightarrow> f a | Inr b \<Rightarrow> f' b, case s of Inl a \<Rightarrow> g a | Inr b \<Rightarrow> g' b) \<in> S"
  by (cases s) simp_all

lemma acquire_key_io:
  assumes "\<forall>c. c \<notin> {Io_key_open_wr, Io_key_write, Io_key_close} \<longrightarrow> f c = io_ok ev c"
  shows "fst (acquire_key (ev\<lparr>io_ok := f\<rparr>) cfgdir mode l w) = fst (acquire_key ev cfgdir mode l w)"
    and "same_but_key_cache (cfgdir @ ''/key'')
           (snd (acquire_key (ev\<lparr>io_ok := f\<rparr>) cfgdir mode l w))
           (snd (acquire_key ev cfgdir mode l w))"
proof -
  define S where "S = {(x', x). fst x' = (fst x :: error + bytes \<times> string option) \<and>
                         same_but_key_cache (cfgdir @ ''/key'') (snd x') (snd x)}"
  have fc: "f Io_key_open_rd = io_ok ev Io_key_open_rd" "f Io_key_read = io_ok ev Io_key_read"
    using assms by simp_all
  have leaf: "((r, v), (r, v)) \<in> S" for r v
    by (simp add: S_def same_but_key_cache_refl)
  have pk: "((r, persist_key ev' (cfgdir @ ''/key'') K v), (r, persist_key ev (cfgdir @ ''/key'') K v)) \<in> S"
    for r ev' K v
    by (simp add: S_def persist_key_io)
  have "(acquire_key (ev\<lparr>io_ok := f\<rparr>) cfgdir mode l w, acquire_key ev cfgdir mode l w) \<in> S"
    unfolding acquire_key_def Let_def env_io_fields fc getpassword_loop_io keyfp_io
    by (intro mem_if mem_case_prod leaf pk)
  then show "fst (acquire_key (ev\<lparr>io_ok := f\<rparr>) cfgdir mode l w) = fst (acquire_key ev cfgdir mode l w)"
    and "same_but_key_cache (cfgdir @ ''/key'')
           (snd (acquire_key (ev\<lparr>io_ok := f\<rparr>) cfgdir mode l w))
           (snd (acquire_key ev cfgdir mode l w))"
    by (simp_all add: S_def)
qed

lemma key_and_contexts_io:
  assumes "\<forall>c. c \<notin> {Io_key_open_wr, Io_key_write, Io_key_close} \<longrightarrow> f c = io_ok ev c"
  shows "(case acquire_key (ev\<lparr>io_ok := f\<rparr>) cfgdir mode l w of
            (Inl e, w3) \<Rightarrow> (Inl e, w3)
          | (Inr (K, kf), w3) \<Rightarrow> init_contexts (ev\<lparr>io_ok := f\<rparr>) K kf mode w3,
          case acquire_key ev cfgdir mode l w of
            (Inl e, w3) \<Rightarrow> (Inl e, w3)
          | (Inr (K, kf), w3) \<Rightarrow> init_contexts ev K kf mode w3)
         \<in> {(x', x). fst x' = (fst x :: error + aes256_ctx) \<and>
                   same_but_key_cache (cfgdir @ ''/key'') (snd x') (snd x)}"
proof -
  obtain r' w' where a': "acquire_key (ev\<lparr>io_ok := f\<rparr>) cfgdir mode l w = (r', w')" by fastforce
  obtain r v where a: "acquire_key ev cfgdir mode l w = (r, v)" by fastforce
  from acquire_key_io [OF assms(1), where cfgdir = cfgdir and mode = mode and l = l and w = w]
  have e: "r' = r" and s: "same_but_key_cache (cfgdir @ ''/key'') w' v" by (simp_all add: a' a)
  show ?thesis
  proof (cases r)
    case (Inl err)
    then show ?thesis using s by (simp add: a' a e)
  next
    case (Inr p)
    obtain K kf where p: "p = (K, kf)" by (cases p)
    from init_contexts_io [OF s, where ev = ev and f = f and K = K and kf = kf and mode = mode] show ?thesis
      by (simp add: a' a e Inr p)
  qed
qed

section \<open>The files after aes256_data_prepare\<close>

lemma derive_key_files: "files (snd (derive_key ev pass salt out n w)) = files w"
  by (simp add: derive_key_def ERROR_def Let_def split: option.splits)

lemma getpassword_files: "files (snd (getpassword ev rep mode K salt w)) = files w"
  by (simp add: getpassword_def sxc_filter_get_input_def WARN_def derive_key_files
      split: list.splits option.splits)

lemma getpassword_loop_files: "files (snd (getpassword_loop ev rep mode K salt w)) = files w"
proof (induction ev rep mode K salt w rule: getpassword_loop.induct)
  case (1 ev rep mode K salt w)
  obtain ret K' w' where g: "getpassword ev rep mode K salt w = ((ret, K'), w')"
    by (metis surj_pair)
  have fw: "files w' = files w" using getpassword_files [of ev rep mode K salt w] by (simp add: g)
  show ?case
  proof (cases "ret = 1")
    case True
    from 1 [OF g [symmetric] refl True] show ?thesis
      by (subst getpassword_loop.simps) (simp add: g True fw)
  next
    case False
    then show ?thesis
      by (subst getpassword_loop.simps) (simp add: g fw)
  qed
qed

lemma keyfp_files: "files (snd (keyfp ev K cur w)) = files w"
proof -
  obtain r d w1 where dk: "derive_key ev (sxi_bin2hex ev (SHA256 ev (take 64 K)))
      (case cur of Some cfp \<Rightarrow> take 16 cfp | None \<Rightarrow> take 16 (RAND_pseudo_bytes ev))
      (replicate 64 0) 64 w = ((r, d), w1)"
    by (metis surj_pair)
  have "files w1 = files w"
    using derive_key_files [of ev "sxi_bin2hex ev (SHA256 ev (take 64 K))"
      "case cur of Some cfp \<Rightarrow> take 16 cfp | None \<Rightarrow> take 16 (RAND_pseudo_bytes ev)"
      "replicate 64 0" 64 w] by (simp add: dk)
  then show ?thesis
    by (simp add: keyfp_def Let_def dk ERROR_def split: option.splits)
qed

lemma in_if: "x \<in> S \<Longrightarrow> y \<in> S \<Longrightarrow> (if c then x else y) \<in> S"
  by simp

lemma in_case_prod: "(\<And>a b. p = (a, b) \<Longrightarrow> f a b \<in> S) \<Longrightarrow> (case p of (a, b) \<Rightarrow> f a b) \<in> S"
  by (cases p) simp

lemma in_case_option:
  "x \<in> S \<Longrightarrow> (\<And>a. f a \<in> S) \<Longrightarrow> (case opt of None \<Rightarrow> x | Some a \<Rightarrow> f a) \<in> S"
  by (cases opt) simp_all

lemma blob_dispatch_files: "files (snd (blob_dispatch ev cfgdata mode l w)) = files w"
proof -
  define S where "S = {x :: (error + locals) \<times> world. files (snd x) = files w}"
  have gl: "files v = files w0"
    if "getpassword_loop ev rep mode K salt w0 = (x, v)" for rep K salt w0 x v
    using getpassword_loop_files [of ev rep mode K salt w0] that by simp
  have "blob_dispatch ev cfgdata mode l w \<in> S"
    unfolding blob_dispatch_def Let_def
    apply (intro in_if in_case_prod in_case_option)
    apply (auto simp: S_def ERROR_def NOTICE_def dest!: gl)
    done
  then show ?thesis by (simp add: S_def)
qed

lemma persist_key_files: "p \<noteq> kf \<Longrightarrow> files (persist_key ev kf K w) p = files w p"
  by (simp add: persist_key_def WARN_def unlink_def Let_def)

lemma init_contexts_files: "files (snd (init_contexts ev K kf mode w)) = files w"
  by (simp add: init_contexts_def Let_def ERROR_def)

lemma acquire_key_files:
  assumes "p \<noteq> cfgdir @ ''/key''"
  shows "files (snd (acquire_key ev cfgdir mode l w)) p = files w p"
proof -
  define S where "S = {x :: (error + bytes \<times> string option) \<times> world. files (snd x) p = files w p}"
  have gl: "files v p = files w p"
    if "getpassword_loop ev rep mode K salt w0 = (x, v)" "files w0 = files w" for rep K salt w0 x v
    using getpassword_loop_files [of ev rep mode K salt w0] that by simp
  have kl: "files v p = files v0 p" if "keyfp ev K cur v0 = (x, v)" for K cur v0 x v
    using keyfp_files [of ev K cur v0] that by simp
  have "acquire_key ev cfgdir mode l w \<in> S"
    unfolding acquire_key_def Let_def
    apply (intro in_if in_case_prod)
    apply (auto simp: S_def ERROR_def NOTICE_def WARN_def persist_key_files [OF assms]
        dest!: gl kl)
    done
  then show ?thesis by (simp add: S_def)
qed

lemma custfp_not_key: "cfgdir @ ''/custfp'' \<noteq> cfgdir @ ''/key''"
  by simp

lemma password_change_prepare:
  fixes ev :: env and w :: world and cfgdir :: string and mode :: sxf_mode
    and cfgdata :: "bytes option" and V1 V2 :: bytes
  assumes nv: "\<not> version_mismatch ev"
    and fromfp: "case cfgdata of None \<Rightarrow> True | Some cfg \<Rightarrow> length cfg = 17"
    and md: "custom_meta w ''aes256_fp'' = Some V2"
    and f1: "files w (cfgdir @ ''/custfp'') = Some V1" and l1: "96 \<le> length V1"
    and diff: "take (length V2) (take 96 V1 @ stack_after_custfp ev) \<noteq> V2"
    and io: "io_ok ev Io_custfp_open" "io_ok ev Io_custfp_read" "io_ok ev Io_custfp_close"
    and mal: "malloc_ok ev Alloc_fpfile"
  defines "w1 \<equiv> unlink ev Io_key_unlink (cfgdir @ ''/key'')
                  (unlink ev Io_custfp_unlink (cfgdir @ ''/custfp'')
                     (NOTICE ''Detected volume password change'' w))"
  defines "l0 \<equiv> \<lparr>keyread = False, key_l = stack_key ev, salt_l = stack_salt ev,
                  fp_l = stack_fp ev, have_fp = False\<rparr>"
  shows "aes256_data_prepare ev cfgdir cfgdata mode w =
           (case blob_dispatch ev (Some V2) mode l0 w1 of
              (Inl e, w2) \<Rightarrow> (Inl e, w2)
            | (Inr l, w2) \<Rightarrow>
                (case acquire_key ev cfgdir mode l w2 of
                   (Inl e, w3) \<Rightarrow> (Inl e, w3)
                 | (Inr (K, kf), w3) \<Rightarrow> init_contexts ev K kf mode w3))"
    and "io_ok ev Io_custfp_unlink \<Longrightarrow>
           files (snd (aes256_data_prepare ev cfgdir cfgdata mode w)) (cfgdir @ ''/custfp'') = None"
    and "io_ok ev Io_custfp_unlink \<Longrightarrow> files w1 (cfgdir @ ''/custfp'') = None"
    and "io_ok ev Io_key_unlink \<Longrightarrow> files w1 (cfgdir @ ''/key'') = None"
proof -
  have rc: "custfp_reconcile ev cfgdir V2 w = (Inr (), w1)"
    using f1 l1 diff io mal by (simp add: custfp_reconcile_def Let_def w1_def)
  show eq: "aes256_data_prepare ev cfgdir cfgdata mode w =
           (case blob_dispatch ev (Some V2) mode l0 w1 of
              (Inl e, w2) \<Rightarrow> (Inl e, w2)
            | (Inr l, w2) \<Rightarrow>
                (case acquire_key ev cfgdir mode l w2 of
                   (Inl e, w3) \<Rightarrow> (Inl e, w3)
                 | (Inr (K, kf), w3) \<Rightarrow> init_contexts ev K kf mode w3))"
    using nv fromfp md rc
    by (cases cfgdata) (simp_all add: aes256_data_prepare_def Let_def l0_def)
  show c1: "files w1 (cfgdir @ ''/custfp'') = None" if "io_ok ev Io_custfp_unlink"
    using that by (simp add: w1_def unlink_def NOTICE_def)
  show "files w1 (cfgdir @ ''/key'') = None" if "io_ok ev Io_key_unlink"
    using that by (simp add: w1_def unlink_def NOTICE_def)
  show "files (snd (aes256_data_prepare ev cfgdir cfgdata mode w)) (cfgdir @ ''/custfp'') = None"
    if u: "io_ok ev Io_custfp_unlink"
  proof -
    obtain rb w2 where bd: "blob_dispatch ev (Some V2) mode l0 w1 = (rb, w2)" by fastforce
    have f2: "files w2 = files w1"
      using blob_dispatch_files [where ev = ev and cfgdata = "Some V2" and mode = mode and l = l0 and w = w1] by (simp add: bd)
    show ?thesis
    proof (cases rb)
      case (Inl e)
      then show ?thesis using c1 [OF u] f2 by (simp add: eq bd)
    next
      case (Inr l)
      obtain ra w3 where ak: "acquire_key ev cfgdir mode l w2 = (ra, w3)" by fastforce
      have f3: "files w3 (cfgdir @ ''/custfp'') = None"
        using acquire_key_files [OF custfp_not_key, where ev = ev and mode = mode and l = l and w = w2
            and cfgdir = cfgdir] c1 [OF u] f2
        by (simp add: ak)
      show ?thesis
      proof (cases ra)
        case (Inl e)
        then show ?thesis using f3 by (simp add: eq bd Inr ak)
      next
        case r: (Inr p)
        obtain K kf where p: "p = (K, kf)" by (cases p)
        show ?thesis
          using f3 init_contexts_files [where ev = ev and K = K and kf = kf and mode = mode and w = w3] by (simp add: eq bd Inr ak r p)
      qed
    qed
  qed
qed

section \<open>The claims\<close>

text \<open>
  C1 (the code does otherwise). \<open>aes256_data_prepare\<close> keys both HMAC contexts with the
  first 32 bytes of the key. The cipher context is keyed with the 32 bytes at
  \<open>actx->key + KEY_SIZE\<close>, which lie past the 64 bytes of the key: in the context made for
  the example key (32 bytes of 1, then 32 bytes of 2) the cipher key is 32 zero bytes, not
  the last 32 bytes of the key.
\<close>

theorem prepare_cipher_key_not_K_enc:
  "key (example_ctx SXF_MODE_UPLOAD) = replicate 32 1 @ replicate 32 2 \<and>
   hkey (ivhash (example_ctx SXF_MODE_UPLOAD)) = replicate 32 1 \<and>
   hkey (hmac (example_ctx SXF_MODE_UPLOAD)) = replicate 32 1 \<and>
   cipher_key (ectx (example_ctx SXF_MODE_UPLOAD)) = replicate 32 0 \<and>
   cipher_key (ectx (example_ctx SXF_MODE_UPLOAD)) \<noteq> drop 32 (key (example_ctx SXF_MODE_UPLOAD)) \<and>
   cipher_key (dctx (example_ctx SXF_MODE_DOWNLOAD)) = replicate 32 0"
proof -
  have u: "init_contexts toy_env example_key (Some ''cfg/key'') SXF_MODE_UPLOAD example_world
           = (Inr (example_ctx SXF_MODE_UPLOAD), example_world)"
    using example_ctx_prepared [of SXF_MODE_UPLOAD] by (simp add: example_prepare)
  have d: "init_contexts toy_env example_key (Some ''cfg/key'') SXF_MODE_DOWNLOAD example_world
           = (Inr (example_ctx SXF_MODE_DOWNLOAD), example_world)"
    using example_ctx_prepared [of SXF_MODE_DOWNLOAD] by (simp add: example_prepare)
  note U = init_contexts_upload [OF example_key_length u]
  note D = init_contexts_download [OF example_key_length d]
  have "replicate 32 (0::byte) \<noteq> replicate 32 2"
    by (simp add: replicate_eq_replicate)
  with U D show ?thesis
    by (simp add: example_key_def)
qed

text \<open>
  C7. For a staged plaintext block of \<open>N\<close> bytes, \<open>1 \<le> N \<le> 16384\<close>, the encrypt path
  leaves in \<open>blk\<close> a wire block of \<open>16 + ceil((N+1)/16)*16 + 32\<close> bytes: the 16-byte IV,
  the padded CBC ciphertext and the HMAC-SHA-512 of both, cut to 32 bytes.
\<close>

theorem encrypt_block_wire_size:
  assumes "openssl_ok cr"
    and "keyed SXF_MODE_UPLOAD km ke a"
    and "1 \<le> inbytes a" and "inbytes a \<le> FILTER_BLOCK_SIZE"
    and "data_out_left a = 0" and "blkbytes a = 0"
  shows "\<exists>a' iv ct tag.
           encrypt_block cr a = (Inr (), a') \<and>
           blkbytes a' = 16 + ((inbytes a + 1 + 15) div 16) * 16 + 32 \<and>
           take (blkbytes a') (blk a') = iv @ ct @ tag \<and>
           length iv = 16 \<and> length ct = ((inbytes a + 1 + 15) div 16) * 16 \<and> length tag = 32 \<and>
           iv = take 16 (HMAC cr EVP_sha1 km (ivmac a @ take (inbytes a) (inbuf a))) \<and>
           ct = cbc_pkcs_encrypt cr ke iv (take (inbytes a) (inbuf a)) \<and>
           tag = take 32 (HMAC cr EVP_sha512 km (iv @ ct))"
proof -
  define st where "st = take (inbytes a) (inbuf a)"
  have lst: "length st = inbytes a"
    using assms(2,4) by (simp add: st_def keyed_def)
  have stg: "staged SXF_MODE_UPLOAD km ke a st (ivmac a) (data_in a) (data_end a)"
    using assms(2,5,6) lst by (simp add: staged_def st_def)
  from encrypt_block_staged [OF assms(1) stg] assms(4) lst
  obtain a' where a': "encrypt_block cr a = (Inr (), a')"
    "pending SXF_MODE_UPLOAD km ke a' (seal_block cr km ke (ivmac a) st) 0
       (chain_ivmac cr km (ivmac a) st) (data_in a) (data_end a)"
    by auto
  define iv where "iv = take 16 (HMAC cr EVP_sha1 km (ivmac a @ st))"
  define ct where "ct = cbc_pkcs_encrypt cr ke iv st"
  define tag where "tag = take 32 (HMAC cr EVP_sha512 km (iv @ ct))"
  have seal: "seal_block cr km ke (ivmac a) st = iv @ ct @ tag"
    by (simp add: seal_block_def Let_def iv_def ct_def tag_def)
  have liv: "length iv = 16" using hmac_sizes(1) [OF assms(1)] by (simp add: iv_def)
  have "(inbytes a div 16) * 16 + 16 = ((inbytes a + 1 + 15) div 16) * 16" by presburger
  then have lct: "length ct = ((inbytes a + 1 + 15) div 16) * 16"
    using cbc_pkcs_encrypt_length [OF assms(1) liv, of ke st] lst by (simp add: ct_def)
  have ltag: "length tag = 32" using hmac_sizes(2) [OF assms(1)] by (simp add: tag_def)
  have b1: "blkbytes a' = 16 + ((inbytes a + 1 + 15) div 16) * 16 + 32"
    using a'(2) liv lct ltag by (simp add: pending_def seal)
  have b2: "take (blkbytes a') (blk a') = iv @ ct @ tag"
    using a'(2) by (simp add: pending_def seal)
  show ?thesis
    unfolding st_def [symmetric]
    using a'(1) b1 b2 liv lct ltag iv_def ct_def tag_def by blast
qed

theorem encrypt_block_wire_size_witness:
  "openssl_ok toy_crypto \<and>
   keyed SXF_MODE_UPLOAD (replicate 32 1) (replicate 32 0) example_staged_ctx \<and>
   inbytes example_staged_ctx = 10 \<and>
   data_out_left example_staged_ctx = 0 \<and> blkbytes example_staged_ctx = 0 \<and>
   (\<exists>a'. encrypt_block toy_crypto example_staged_ctx = (Inr (), a') \<and> blkbytes a' = 64)"
proof -
  have s: "keyed SXF_MODE_UPLOAD (replicate 32 1) (replicate 32 0) example_staged_ctx"
    "inbytes example_staged_ctx = 10" "data_out_left example_staged_ctx = 0"
    "blkbytes example_staged_ctx = 0"
    using example_staged by (simp_all add: staged_def example_plain_length)
  from encrypt_block_wire_size [OF toy_crypto_ok s(1) _ _ s(3,4)] s(2)
  have "\<exists>a'. encrypt_block toy_crypto example_staged_ctx = (Inr (), a') \<and> blkbytes a' = 64"
    by auto
  with toy_crypto_ok s show ?thesis by simp
qed

text \<open>
  C2. Whatever the plaintext, however the host cuts it into buffers (each shorter than
  \<open>2^32\<close> bytes, the last one offered with \<open>DataEnd\<close>) and whatever the size of its output
  buffer, the upload direction ends and yields a ciphertext; and however that ciphertext is
  cut into buffers and whatever the output buffer, the download direction under a context
  made from the same key ends and yields the plaintext.
\<close>

theorem upload_download_roundtrip:
  assumes "openssl_ok (libcrypto ev)" and "length K = KEY_SIZE"
    and "init_contexts ev K kfu SXF_MODE_UPLOAD wu = (Inr au, wu')"
    and "init_contexts ev K kfd SXF_MODE_DOWNLOAD wd = (Inr ad, wd')"
    and "\<forall>c \<in> set cs. length c < 2 ^ 32" and "0 < m"
  shows "\<exists>C au'. host_stream (libcrypto ev) SXF_MODE_UPLOAD m past au cs = Some (Inr C, au') \<and>
           (\<forall>ds m' past'. concat ds = C \<and> (\<forall>c \<in> set ds. length c < 2 ^ 32) \<and> 0 < m' \<longrightarrow>
              (\<exists>ad'. host_stream (libcrypto ev) SXF_MODE_DOWNLOAD m' past' ad ds
                       = Some (Inr (concat cs), ad')))"
proof -
  let ?cr = "libcrypto ev"
  let ?km = "take 32 K"
  let ?ke = "replicate 32 (0::byte)"
  let ?v0 = "replicate 64 (0::byte)"
  note su = init_contexts_upload(1) [OF assms(2,3)]
  note sd = init_contexts_download(1) [OF assms(2,4)]
  from stream_roundtrip [OF assms(1), of ?km ?ke ?v0 "concat cs" ?v0]
  obtain C vu where C: "stream_out ?cr SXF_MODE_UPLOAD ?km ?ke True ?v0 (concat cs) = Inr (C, [], vu)"
    "stream_out ?cr SXF_MODE_DOWNLOAD ?km ?ke True ?v0 C = Inr (concat cs, [], ?v0)"
    by blast
  from host_stream_all [OF assms(1,6,5) su C(1)]
  obtain au' where up: "host_stream ?cr SXF_MODE_UPLOAD m past au cs = Some (Inr C, au')" by blast
  have "\<exists>ad'. host_stream ?cr SXF_MODE_DOWNLOAD m' past' ad ds = Some (Inr (concat cs), ad')"
    if "concat ds = C" "\<forall>c \<in> set ds. length c < 2 ^ 32" "0 < m'" for ds m' past'
    using host_stream_all [OF assms(1) that(3,2) sd, of "concat cs" "[]" ?v0] C(2) that(1) by simp
  with up show ?thesis by blast
qed

theorem upload_download_roundtrip_witness:
  "openssl_ok (libcrypto toy_env) \<and> length example_key = KEY_SIZE \<and>
   init_contexts toy_env example_key (Some ''cfg/key'') SXF_MODE_UPLOAD example_world
     = (Inr (example_ctx SXF_MODE_UPLOAD), example_world) \<and>
   init_contexts toy_env example_key (Some ''cfg/key'') SXF_MODE_DOWNLOAD example_world
     = (Inr (example_ctx SXF_MODE_DOWNLOAD), example_world) \<and>
   (\<exists>C au'. host_stream (libcrypto toy_env) SXF_MODE_UPLOAD 7 (\<lambda>i. 0) (example_ctx SXF_MODE_UPLOAD)
               [take 4 example_plain, drop 4 example_plain] = Some (Inr C, au') \<and>
      (\<exists>ad'. host_stream (libcrypto toy_env) SXF_MODE_DOWNLOAD 3 (\<lambda>i. 0) (example_ctx SXF_MODE_DOWNLOAD)
                (map (\<lambda>b. [b]) C) = Some (Inr example_plain, ad')))"
proof -
  have ok: "openssl_ok (libcrypto toy_env)" by (simp add: toy_env_fields toy_crypto_ok)
  have u: "init_contexts toy_env example_key (Some ''cfg/key'') SXF_MODE_UPLOAD example_world
           = (Inr (example_ctx SXF_MODE_UPLOAD), example_world)"
    using example_ctx_prepared [of SXF_MODE_UPLOAD] by (simp add: example_prepare)
  have d: "init_contexts toy_env example_key (Some ''cfg/key'') SXF_MODE_DOWNLOAD example_world
           = (Inr (example_ctx SXF_MODE_DOWNLOAD), example_world)"
    using example_ctx_prepared [of SXF_MODE_DOWNLOAD] by (simp add: example_prepare)
  have cs: "\<forall>c \<in> set [take 4 example_plain, drop 4 example_plain]. length c < 2 ^ 32"
    by (simp add: example_plain_def)
  have m: "0 < (7::nat)" by simp
  from upload_download_roundtrip [OF ok example_key_length u d cs m]
  obtain C au' where C:
    "host_stream (libcrypto toy_env) SXF_MODE_UPLOAD 7 (\<lambda>i. 0) (example_ctx SXF_MODE_UPLOAD)
       [take 4 example_plain, drop 4 example_plain] = Some (Inr C, au')"
    "\<forall>ds m' past'. concat ds = C \<and> (\<forall>c \<in> set ds. length c < 2 ^ 32) \<and> 0 < m' \<longrightarrow>
       (\<exists>ad'. host_stream (libcrypto toy_env) SXF_MODE_DOWNLOAD m' past' (example_ctx SXF_MODE_DOWNLOAD) ds
                = Some (Inr (concat [take 4 example_plain, drop 4 example_plain]), ad'))"
    by blast
  have c1: "concat (map (\<lambda>b. [b]) C) = C" by (induction C) simp_all
  have c2: "\<forall>c \<in> set (map (\<lambda>b. [b]) C). length c < 2 ^ 32" by auto
  have m3: "0 < (3::nat)" by simp
  from C(2) [rule_format, of "map (\<lambda>b. [b]) C" 3 "\<lambda>i. 0"] c1 c2 m3 have
    "\<exists>ad'. host_stream (libcrypto toy_env) SXF_MODE_DOWNLOAD 3 (\<lambda>i. 0) (example_ctx SXF_MODE_DOWNLOAD)
              (map (\<lambda>b. [b]) C) = Some (Inr (concat [take 4 example_plain, drop 4 example_plain]), ad')"
    by blast
  then have "\<exists>ad'. host_stream (libcrypto toy_env) SXF_MODE_DOWNLOAD 3 (\<lambda>i. 0) (example_ctx SXF_MODE_DOWNLOAD)
              (map (\<lambda>b. [b]) C) = Some (Inr example_plain, ad')"
    by simp
  with C(1) ok example_key_length u d show ?thesis by blast
qed

text \<open>
  C3. On download, a call that completes a staged wire block \<open>W\<close> of at least 48 bytes
  compares the HMAC-SHA-512 of all but the last 32 bytes, cut to 32 bytes, with the last 32
  bytes. If they differ the call fails, \<open>decrypt_err\<close> is set, and nothing was decrypted:
  the cipher context and \<open>blk\<close> are as before. If they agree and the padding check of the
  cipher fails, the call fails and \<open>decrypt_err\<close> is set. A failing call writes no bytes.
\<close>

theorem download_authentication_failure:
  fixes act :: sxf_action and inp st :: bytes
  assumes ok: "openssl_ok cr"
    and st: "staged SXF_MODE_DOWNLOAD km ke a st v d e"
    and len: "length st \<le> BUF_SIZE" "d \<le> length inp" "length inp < 2 ^ 32"
  defines "W \<equiv> st @ take (min (BUF_SIZE - length st) (length inp - d)) (drop d inp)"
  assumes trig: "length W = BUF_SIZE \<or> (W \<noteq> [] \<and> (act = SXF_ACTION_DATA_END \<or> e))"
    and big: "IV_SIZE + MAC_SIZE \<le> length W"
  shows "(take 32 (HMAC cr EVP_sha512 km (take (length W - 32) W)) \<noteq> drop (length W - 32) W \<longrightarrow>
            (\<exists>a'. aes256_data_process cr a inp past m SXF_MODE_DOWNLOAD act
                     = (Inl AuthenticationFailure, a', act) \<and>
                  decrypt_err a' \<and> dctx a' = dctx a \<and> blk a' = blk a \<and> blkbytes a' = 0)) \<and>
         (take 32 (HMAC cr EVP_sha512 km (take (length W - 32) W)) = drop (length W - 32) W \<and>
          cbc_pkcs_decrypt cr ke (take 16 W) (drop 16 (take (length W - 32) W)) = None \<longrightarrow>
            (\<exists>a'. aes256_data_process cr a inp past m SXF_MODE_DOWNLOAD act
                     = (Inl AuthenticationFailure, a', act) \<and> decrypt_err a'))"
proof -
  define fin where "fin = (act = SXF_ACTION_DATA_END \<or> e)"
  define n where "n = min (BUF_SIZE - length st) (length inp - d)"
  define a1 where "a1 = (if act = SXF_ACTION_DATA_END then a\<lparr>data_end := True\<rparr> else a)"
  define a2 where "a2 = ingest_input a1 inp past 16448"
  have bs: "bsize_of SXF_MODE_DOWNLOAD = BUF_SIZE" by (simp add: bsize_of_def)
  have len': "length st \<le> bsize_of SXF_MODE_DOWNLOAD" using len(1) by (simp add: bs)
  have st1: "staged SXF_MODE_DOWNLOAD km ke a1 st v d fin"
    using st staged_data_end [OF st] by (auto simp: a1_def fin_def)
  have st2: "staged SXF_MODE_DOWNLOAD km ke a2 W v (d + n) fin"
    using ingest_staged [OF st1 len(2,3) len'] by (simp add: a2_def W_def n_def bs)
  have f: "data_out_left a = 0" "blkbytes a = 0" using st by (simp_all add: staged_def)
  have d1: "\<not> length inp < data_in a1" using st1 len(2) by (simp add: staged_def)
  have f2: "inbytes a2 = length W" "data_end a2 = fin" "take (length W) (inbuf a2) = W"
    "keyed SXF_MODE_DOWNLOAD km ke a2" "blkbytes a2 = 0"
    using st2 by (simp_all add: staged_def)
  have same: "dctx a2 = dctx a" "blk a2 = blk a"
    by (simp_all add: a2_def a1_def ingest_input_def Let_def)
  have lW: "length W \<le> BUF_SIZE" using len(1) by (simp add: W_def)
  have proc: "aes256_data_process cr a inp past m SXF_MODE_DOWNLOAD act =
        (case decrypt_block cr a2 of
           (Inl err, a3) \<Rightarrow> (Inl err, a3, act)
         | (Inr u, a3) \<Rightarrow> emit_block a3 (length inp) m)"
    using f(1) d1 f2(1,2) trig
    by (simp add: aes256_data_process_def Let_def a1_def [symmetric] a2_def [symmetric] fin_def)
  have body: "take (length W - 32) (inbuf a2) = take (length W - 32) W"
    using take_drop_within [OF f2(3), of 0 "length W - 32"] by simp
  have tag: "take 32 (drop (length W - 32) (inbuf a2)) = drop (length W - 32) W"
    using take_drop_within [OF f2(3), of "length W - 32" 32] big by simp
  show ?thesis
  proof (intro conjI impI)
    assume bad: "take 32 (HMAC cr EVP_sha512 km (take (length W - 32) W)) \<noteq> drop (length W - 32) W"
    have "decrypt_block cr a2 =
           (Inl AuthenticationFailure,
            a2\<lparr>hmac := HMAC_Update (HMAC_Init_reset (hmac a2)) (take (inbytes a2 - 32) (inbuf a2)),
               inbytes := inbytes a2 - 32, decrypt_err := True\<rparr>)"
      using decrypt_block_mismatch [OF ok f2(4), unfolded f2(1) body tag] big lW bad
      by (simp add: f2(1) body tag)
    then show "\<exists>a'. aes256_data_process cr a inp past m SXF_MODE_DOWNLOAD act
                     = (Inl AuthenticationFailure, a', act) \<and>
                  decrypt_err a' \<and> dctx a' = dctx a \<and> blk a' = blk a \<and> blkbytes a' = 0"
      by (simp add: proc same f2(5))
  next
    assume good: "take 32 (HMAC cr EVP_sha512 km (take (length W - 32) W)) = drop (length W - 32) W \<and>
          cbc_pkcs_decrypt cr ke (take 16 W) (drop 16 (take (length W - 32) W)) = None"
    have "take 16 (take (length W - 32) W) = take 16 W" using big by simp
    with good big have ob: "open_block cr km ke W = Inl AuthenticationFailure"
      by (simp add: open_block_def Let_def)
    from decrypt_block_staged [OF ok st2 lW] ob
    obtain a' where "decrypt_block cr a2 = (Inl AuthenticationFailure, a')" "decrypt_err a'"
      by auto
    then show "\<exists>a'. aes256_data_process cr a inp past m SXF_MODE_DOWNLOAD act
                     = (Inl AuthenticationFailure, a', act) \<and> decrypt_err a'"
      by (simp add: proc)
  qed
qed

theorem download_authentication_failure_witness:
  "openssl_ok toy_crypto \<and>
   staged SXF_MODE_DOWNLOAD (replicate 32 1) (replicate 32 0) (example_ctx SXF_MODE_DOWNLOAD) []
     (replicate 64 0) 0 False \<and>
   length example_bad_wire = 64 \<and>
   take 32 (HMAC toy_crypto EVP_sha512 (replicate 32 1) (take 32 example_bad_wire))
     \<noteq> drop 32 example_bad_wire \<and>
   (\<exists>a'. aes256_data_process toy_crypto (example_ctx SXF_MODE_DOWNLOAD) example_bad_wire (\<lambda>i. 0) 100
            SXF_MODE_DOWNLOAD SXF_ACTION_DATA_END
          = (Inl AuthenticationFailure, a', SXF_ACTION_DATA_END) \<and>
        decrypt_err a' \<and> dctx a' = dctx (example_ctx SXF_MODE_DOWNLOAD) \<and>
        blk a' = blk (example_ctx SXF_MODE_DOWNLOAD) \<and> blkbytes a' = 0)"
proof -
  have l: "length example_bad_wire = 64" by (simp add: example_bad_wire_def)
  have W: "[] @ take (min (BUF_SIZE - length ([]::bytes)) (length example_bad_wire - 0))
             (drop 0 example_bad_wire) = example_bad_wire"
    by (simp add: l)
  have ne: "replicate 32 (0::byte) \<noteq> replicate 31 0 @ [1]"
  proof
    assume "replicate 32 (0::byte) = replicate 31 0 @ [1]"
    then have "last (replicate 32 (0::byte)) = last (replicate 31 0 @ [1])" by (rule arg_cong)
    then show False by simp
  qed
  have bad: "take 32 (HMAC toy_crypto EVP_sha512 (replicate 32 1) (take 32 example_bad_wire))
               \<noteq> drop 32 example_bad_wire"
    using ne by (simp add: toy_hmac512 example_bad_wire_def)
  note st = example_ctx_staged [of SXF_MODE_DOWNLOAD]
  have ne0: "example_bad_wire \<noteq> []" by (simp add: example_bad_wire_def)
  from download_authentication_failure [OF toy_crypto_ok st, where inp = example_bad_wire
      and act = SXF_ACTION_DATA_END and m = 100 and past = "\<lambda>i. 0", unfolded W] l bad ne0
  have "\<exists>a'. aes256_data_process toy_crypto (example_ctx SXF_MODE_DOWNLOAD) example_bad_wire (\<lambda>i. 0) 100
            SXF_MODE_DOWNLOAD SXF_ACTION_DATA_END
          = (Inl AuthenticationFailure, a', SXF_ACTION_DATA_END) \<and>
        decrypt_err a' \<and> dctx a' = dctx (example_ctx SXF_MODE_DOWNLOAD) \<and>
        blk a' = blk (example_ctx SXF_MODE_DOWNLOAD) \<and> blkbytes a' = 0"
    by auto
  with toy_crypto_ok st l bad show ?thesis by blast
qed

text \<open>
  C10. A context made by \<open>aes256_data_prepare\<close>'s initialisation for upload has an all-zero
  \<open>ivmac\<close>, and after any list of calls of \<open>aes256_data_process\<close> in upload mode \<open>ivmac\<close>
  has 64 bytes of which bytes 20..63 are zero. The next call, when it is not one that hands
  over pending output and its staged bytes make a block (16384 of them, or some at the end
  of the data), takes the HMAC-SHA-1, keyed with the first 32 bytes of the key, of the 64
  bytes of \<open>ivmac\<close> followed by the staged plaintext: that digest has 20 bytes, its first 16
  bytes are the IV at the head of \<open>blk\<close> and of the bytes the call returns, and \<open>ivmac\<close>
  after the call is the digest followed by 44 zero bytes. Every other call leaves \<open>ivmac\<close>
  as it is.
\<close>

theorem upload_iv_chain:
  fixes calls :: "(bytes \<times> (nat \<Rightarrow> byte) \<times> nat \<times> sxf_action) list"
    and inp :: bytes and past :: "nat \<Rightarrow> byte" and act :: sxf_action and m :: nat
  assumes ok: "openssl_ok cr"
    and K: "length K = KEY_SIZE"
    and init: "init_contexts ev K kf SXF_MODE_UPLOAD w = (Inr a0, w')"
  defines "a \<equiv> process_calls cr SXF_MODE_UPLOAD a0 calls"
  defines "r \<equiv> aes256_data_process cr a inp past m SXF_MODE_UPLOAD act"
  defines "a2 \<equiv> ingest_input (if act = SXF_ACTION_DATA_END then a\<lparr>data_end := True\<rparr> else a)
                   inp past FILTER_BLOCK_SIZE"
  defines "mac \<equiv> HMAC cr EVP_sha1 (take 32 K) (ivmac a @ take (inbytes a2) (inbuf a2))"
  shows "ivmac a0 = replicate 64 0 \<and>
         length (ivmac a) = 64 \<and> drop 20 (ivmac a) = replicate 44 0 \<and>
         (if \<not> (act = SXF_ACTION_REPEAT \<and> data_out_left a \<noteq> 0) \<and>
             (inbytes a2 = FILTER_BLOCK_SIZE
              \<or> (inbytes a2 \<noteq> 0 \<and> (act = SXF_ACTION_DATA_END \<or> data_end a2)))
          then length mac = 20 \<and>
               ivmac (fst (snd r)) = mac @ replicate 44 0 \<and>
               take 16 (blk (fst (snd r))) = take 16 mac \<and>
               (\<forall>out. fst r = Inr out \<and> 16 \<le> m \<longrightarrow> take 16 out = take 16 mac)
          else ivmac (fst (snd r)) = ivmac a)"
proof -
  note i0 = init_contexts_iv_chain [OF K init]
  have b0: "16 \<le> length (blk a0)" using init_contexts_blk [OF init] by simp
  have inv: "iv_chain (take 32 K) a" "16 \<le> length (blk a)"
    using process_calls_upload_inv [OF ok i0(2) b0, of calls] by (simp_all add: a_def)
  have z: "length (ivmac a) = 64" "drop 20 (ivmac a) = replicate 44 0"
    using inv(1) by (simp_all add: iv_chain_def)
  have lmac: "length mac = 20" using hmac_sizes(1) [OF ok] by (simp add: mac_def)
  have a2b: "ingest_input (if act = SXF_ACTION_DATA_END then a\<lparr>data_end := True\<rparr> else a)
               inp past (bsize_of SXF_MODE_UPLOAD) = a2"
    by (simp add: a2_def bsize_of_def)
  have bs: "bsize_of SXF_MODE_UPLOAD = 16384" by (simp add: bsize_of_def)
  show ?thesis
  proof (cases "\<not> (act = SXF_ACTION_REPEAT \<and> data_out_left a \<noteq> 0) \<and>
             (inbytes a2 = FILTER_BLOCK_SIZE
              \<or> (inbytes a2 \<noteq> 0 \<and> (act = SXF_ACTION_DATA_END \<or> data_end a2)))")
    case True
    then have nd: "\<not> (act = SXF_ACTION_REPEAT \<and> data_out_left a \<noteq> 0)"
      and trig: "inbytes a2 = FILTER_BLOCK_SIZE
                 \<or> (inbytes a2 \<noteq> 0 \<and> (act = SXF_ACTION_DATA_END \<or> data_end a2))"
      by simp_all
    note b = process_upload_block [OF ok inv nd trig [unfolded a2_def],
        folded a2_def, folded mac_def, where m = m, folded r_def]
    from b(3) have "\<forall>out. fst r = Inr out \<and> 16 \<le> m \<longrightarrow> take 16 out = take 16 mac" by blast
    with i0(1) z lmac b(1,2) show ?thesis unfolding if_P [OF True] by blast
  next
    case False
    then have nb: "(act = SXF_ACTION_REPEAT \<and> data_out_left a \<noteq> 0) \<or>
           \<not> (inbytes a2 = bsize_of SXF_MODE_UPLOAD
              \<or> (inbytes a2 \<noteq> 0 \<and> (act = SXF_ACTION_DATA_END \<or> data_end a2)))"
      by (simp add: bs)
    have "ivmac (fst (snd r)) = ivmac a"
      unfolding r_def by (rule process_no_block [OF nb [folded a2b]])
    with i0(1) z show ?thesis unfolding if_not_P [OF False] by blast
  qed
qed

theorem upload_iv_chain_witness:
  "openssl_ok toy_crypto \<and> length example_key = 64 \<and>
   init_contexts toy_env example_key (Some ''cfg/key'') SXF_MODE_UPLOAD example_world
     = (Inr (example_ctx SXF_MODE_UPLOAD), example_world) \<and>
   ivmac (example_ctx SXF_MODE_UPLOAD) = replicate 64 0 \<and>
   length (HMAC toy_crypto EVP_sha1 (replicate 32 1) (replicate 64 0 @ example_plain)) = 20 \<and>
   (\<exists>out a'. aes256_data_process toy_crypto (example_ctx SXF_MODE_UPLOAD) example_plain (\<lambda>i. 0) 100
               SXF_MODE_UPLOAD SXF_ACTION_DATA_END = (Inr out, a', SXF_ACTION_DATA_END) \<and>
       ivmac a' = HMAC toy_crypto EVP_sha1 (replicate 32 1) (replicate 64 0 @ example_plain)
                    @ replicate 44 0 \<and>
       take 16 out = take 16 (HMAC toy_crypto EVP_sha1 (replicate 32 1)
                                (replicate 64 0 @ example_plain)))"
proof -
  let ?a = "example_ctx SXF_MODE_UPLOAD"
  let ?a2 = "ingest_input (?a\<lparr>data_end := True\<rparr>) example_plain (\<lambda>i. 0) FILTER_BLOCK_SIZE"
  have u: "init_contexts toy_env example_key (Some ''cfg/key'') SXF_MODE_UPLOAD example_world
           = (Inr ?a, example_world)"
    using example_ctx_prepared [of SXF_MODE_UPLOAD] by (simp add: example_prepare)
  have d: "0 \<le> length example_plain" "length example_plain < 2 ^ 32"
    by (simp_all add: example_plain_length)
  have len: "length ([]::bytes) \<le> bsize_of SXF_MODE_UPLOAD" by simp
  have st2: "staged SXF_MODE_UPLOAD (replicate 32 1) (replicate 32 0) ?a2 example_plain
               (replicate 64 0) 10 True"
    using ingest_staged [OF staged_data_end [OF example_ctx_staged [of SXF_MODE_UPLOAD]] d len,
        of "\<lambda>i. 0"]
    by (simp add: bsize_of_def example_plain_length)
  have f: "inbytes ?a2 = 10" "take 10 (inbuf ?a2) = example_plain" "data_out_left ?a = 0"
    using st2 example_ctx_staged [of SXF_MODE_UPLOAD]
    by (simp_all add: staged_def example_plain_length)
  have k: "take 32 example_key = replicate 32 1" by (simp add: example_key_def)
  obtain a' where p: "aes256_data_process toy_crypto ?a example_plain (\<lambda>i. 0) 100
           SXF_MODE_UPLOAD SXF_ACTION_DATA_END
         = (Inr (seal_block toy_crypto (replicate 32 1) (replicate 32 0) (replicate 64 0) example_plain),
            a', SXF_ACTION_DATA_END)"
    using example_first_call [of "\<lambda>i. 0"] by blast
  note t = upload_iv_chain [OF toy_crypto_ok example_key_length u, where calls = "[]"
      and inp = example_plain and past = "\<lambda>i. 0" and act = SXF_ACTION_DATA_END and m = 100]
  from t have iz: "ivmac ?a = replicate 64 0" by simp
  from t have "ivmac ?a = replicate 64 0 \<and>
     length (HMAC toy_crypto EVP_sha1 (replicate 32 1) (replicate 64 0 @ example_plain)) = 20 \<and>
     ivmac a' = HMAC toy_crypto EVP_sha1 (replicate 32 1) (replicate 64 0 @ example_plain)
                    @ replicate 44 0 \<and>
     take 16 (seal_block toy_crypto (replicate 32 1) (replicate 32 0) (replicate 64 0) example_plain)
       = take 16 (HMAC toy_crypto EVP_sha1 (replicate 32 1) (replicate 64 0 @ example_plain))"
    by (simp add: f k p iz)
  with toy_crypto_ok example_key_length u p show ?thesis by blast
qed






text \<open>
  C9. With a library of the right version and a NULL blob: when the metadata has no entry
  \<open>aes256_fp\<close>, \<open>aes256_data_prepare\<close> goes straight to the key file and the password
  with the locals as they lie on the stack, never fails with the configuration error, and
  when there is no key file and the call succeeds, the entry \<open>aes256_fp\<close> it has set begins
  with the 16 bytes of the uninitialised \<open>salt\<close>. When the metadata has the entry, its
  value is reconciled with the file \<open>custfp\<close> and then takes the place of the blob in the
  dispatch on the length.
\<close>

theorem null_blob_prepare:
  fixes ev :: env and w :: world and cfgdir :: string and mode :: sxf_mode
  assumes "\<not> version_mismatch ev"
  defines "l0 \<equiv> \<lparr>keyread = False, key_l = stack_key ev, salt_l = stack_salt ev,
                  fp_l = stack_fp ev, have_fp = False\<rparr>"
  shows "(custom_meta w ''aes256_fp'' = None \<longrightarrow>
            aes256_data_prepare ev cfgdir None mode w =
              (case acquire_key ev cfgdir mode l0 w of
                 (Inl e, w3) \<Rightarrow> (Inl e, w3)
               | (Inr (K, kf), w3) \<Rightarrow> init_contexts ev K kf mode w3) \<and>
            fst (aes256_data_prepare ev cfgdir None mode w) \<noteq> Inl ConfigurationError \<and>
            (files w (cfgdir @ ''/key'') = None \<longrightarrow>
               (\<forall>a w'. aes256_data_prepare ev cfgdir None mode w = (Inr a, w') \<longrightarrow>
                  (\<exists>fp. custom_meta w' ''aes256_fp'' = Some (take 16 (stack_salt ev) @ fp))))) \<and>
         (\<forall>md. custom_meta w ''aes256_fp'' = Some md \<longrightarrow>
            aes256_data_prepare ev cfgdir None mode w =
              (case custfp_reconcile ev cfgdir md w of
                 (Inl e, w1) \<Rightarrow> (Inl e, w1)
               | (Inr u, w1) \<Rightarrow>
                   (case blob_dispatch ev (Some md) mode l0 w1 of
                      (Inl e, w2) \<Rightarrow> (Inl e, w2)
                    | (Inr l, w2) \<Rightarrow>
                        (case acquire_key ev cfgdir mode l w2 of
                           (Inl e, w3) \<Rightarrow> (Inl e, w3)
                         | (Inr (K, kf), w3) \<Rightarrow> init_contexts ev K kf mode w3))))"
proof (intro conjI impI allI)
  assume nm: "custom_meta w ''aes256_fp'' = None"
  show p: "aes256_data_prepare ev cfgdir None mode w =
              (case acquire_key ev cfgdir mode l0 w of
                 (Inl e, w3) \<Rightarrow> (Inl e, w3)
               | (Inr (K, kf), w3) \<Rightarrow> init_contexts ev K kf mode w3)"
    using assms(1) nm by (simp add: aes256_data_prepare_def Let_def blob_dispatch_def l0_def)
  show "fst (aes256_data_prepare ev cfgdir None mode w) \<noteq> Inl ConfigurationError"
    unfolding p by (rule key_and_contexts_error)
  fix a w'
  assume nk: "files w (cfgdir @ ''/key'') = None"
    and r: "aes256_data_prepare ev cfgdir None mode w = (Inr a, w')"
  obtain ra w3 where ak: "acquire_key ev cfgdir mode l0 w = (ra, w3)" by fastforce
  from r p ak obtain K kf where ra: "ra = Inr (K, kf)" by (cases ra) auto
  from r have ic: "init_contexts ev K kf mode w3 = (Inr a, w')" by (simp add: p ak ra)
  have w': "w' = w3" by (rule init_contexts_world [OF ic])
  have l: "\<not> keyread l0" "\<not> have_fp l0" "salt_l l0 = stack_salt ev" by (simp_all add: l0_def)
  from acquire_key_fresh [OF l(1,2) nk ak [unfolded ra]]
  show "\<exists>fp. custom_meta w' ''aes256_fp'' = Some (take 16 (stack_salt ev) @ fp)"
    by (simp add: w' l(3))
next
  fix md
  assume m: "custom_meta w ''aes256_fp'' = Some md"
  show "aes256_data_prepare ev cfgdir None mode w =
              (case custfp_reconcile ev cfgdir md w of
                 (Inl e, w1) \<Rightarrow> (Inl e, w1)
               | (Inr u, w1) \<Rightarrow>
                   (case blob_dispatch ev (Some md) mode l0 w1 of
                      (Inl e, w2) \<Rightarrow> (Inl e, w2)
                    | (Inr l, w2) \<Rightarrow>
                        (case acquire_key ev cfgdir mode l w2 of
                           (Inl e, w3) \<Rightarrow> (Inl e, w3)
                         | (Inr (K, kf), w3) \<Rightarrow> init_contexts ev K kf mode w3)))"
  proof (cases "custfp_reconcile ev cfgdir md w")
    case (Pair r w1)
    show ?thesis
      using assms(1) m Pair by (cases r) (simp_all add: aes256_data_prepare_def Let_def l0_def)
  qed
qed

theorem null_blob_prepare_witness:
  "\<not> version_mismatch toy_env \<and>
   custom_meta example_fresh_world ''aes256_fp'' = None \<and>
   files example_fresh_world (''cfg'' @ ''/key'') = None \<and>
   (\<exists>a w' fp. aes256_data_prepare toy_env ''cfg'' None SXF_MODE_UPLOAD example_fresh_world
                 = (Inr a, w') \<and>
              custom_meta w' ''aes256_fp'' = Some (take 16 (stack_salt toy_env) @ fp)) \<and>
   custom_meta (example_world\<lparr>custom_meta := [''aes256_fp'' \<mapsto> replicate 96 3]\<rparr>) ''aes256_fp''
     = Some (replicate 96 3) \<and>
   aes256_data_prepare toy_env ''cfg'' None SXF_MODE_DOWNLOAD
       (example_world\<lparr>custom_meta := [''aes256_fp'' \<mapsto> replicate 96 3]\<rparr>) =
     (case custfp_reconcile toy_env ''cfg'' (replicate 96 3)
             (example_world\<lparr>custom_meta := [''aes256_fp'' \<mapsto> replicate 96 3]\<rparr>) of
        (Inl e, w1) \<Rightarrow> (Inl e, w1)
      | (Inr u, w1) \<Rightarrow>
          (case blob_dispatch toy_env (Some (replicate 96 3)) SXF_MODE_DOWNLOAD
                  \<lparr>keyread = False, key_l = stack_key toy_env, salt_l = stack_salt toy_env,
                    fp_l = stack_fp toy_env, have_fp = False\<rparr> w1 of
             (Inl e, w2) \<Rightarrow> (Inl e, w2)
           | (Inr l, w2) \<Rightarrow>
               (case acquire_key toy_env ''cfg'' SXF_MODE_DOWNLOAD l w2 of
                  (Inl e, w3) \<Rightarrow> (Inl e, w3)
                | (Inr (K, kf), w3) \<Rightarrow> init_contexts toy_env K kf SXF_MODE_DOWNLOAD w3)))"
proof -
  let ?wm = "example_world\<lparr>custom_meta := [''aes256_fp'' \<mapsto> replicate 96 3]\<rparr>"
  have nf: "custom_meta example_fresh_world ''aes256_fp'' = None"
    "files example_fresh_world (''cfg'' @ ''/key'') = None"
    by (simp_all add: example_fresh_world_def)
  obtain a w' where p: "aes256_data_prepare toy_env ''cfg'' None SXF_MODE_UPLOAD example_fresh_world
                 = (Inr a, w')"
    using example_fresh_prepare by blast
  note t1 = null_blob_prepare [OF toy_version, where w = example_fresh_world and cfgdir = "''cfg''"
      and mode = SXF_MODE_UPLOAD]
  from t1 nf p obtain fp where fp: "custom_meta w' ''aes256_fp'' = Some (take 16 (stack_salt toy_env) @ fp)"
    by blast
  have m: "custom_meta ?wm ''aes256_fp'' = Some (replicate 96 3)" by simp
  note t2 = null_blob_prepare [OF toy_version, where w = ?wm and cfgdir = "''cfg''"
      and mode = SXF_MODE_DOWNLOAD]
  from t2 m have e: "aes256_data_prepare toy_env ''cfg'' None SXF_MODE_DOWNLOAD ?wm =
     (case custfp_reconcile toy_env ''cfg'' (replicate 96 3) ?wm of
        (Inl e, w1) \<Rightarrow> (Inl e, w1)
      | (Inr u, w1) \<Rightarrow>
          (case blob_dispatch toy_env (Some (replicate 96 3)) SXF_MODE_DOWNLOAD
                  \<lparr>keyread = False, key_l = stack_key toy_env, salt_l = stack_salt toy_env,
                    fp_l = stack_fp toy_env, have_fp = False\<rparr> w1 of
             (Inl e, w2) \<Rightarrow> (Inl e, w2)
           | (Inr l, w2) \<Rightarrow>
               (case acquire_key toy_env ''cfg'' SXF_MODE_DOWNLOAD l w2 of
                  (Inl e, w3) \<Rightarrow> (Inl e, w3)
                | (Inr (K, kf), w3) \<Rightarrow> init_contexts toy_env K kf SXF_MODE_DOWNLOAD w3)))"
    by blast
  from toy_version nf p fp m e show ?thesis by blast
qed

text \<open>
  C8. Whether the key file can be opened for writing, written and closed changes neither
  the value \<open>aes256_data_prepare\<close> returns (the same failure, or the same context) nor the
  metadata, the answers read, the errors and notices reported or any file but the key
  file: only warnings and the key file itself may differ. A failing attempt to write the
  key file adds one warning; when the file was opened and the write or the close failed,
  the file is removed again if the removal succeeds.
\<close>

theorem key_cache_failure_only_warns:
  fixes ev :: env and f :: "io_call \<Rightarrow> bool" and cfgdir :: string and cfgdata :: "bytes option"
    and mode :: sxf_mode and w :: world
  assumes "\<forall>c. c \<notin> {Io_key_open_wr, Io_key_write, Io_key_close} \<longrightarrow> f c = io_ok ev c"
  defines "r' \<equiv> aes256_data_prepare (ev\<lparr>io_ok := f\<rparr>) cfgdir cfgdata mode w"
  defines "r \<equiv> aes256_data_prepare ev cfgdir cfgdata mode w"
  shows "fst r' = fst r \<and> same_but_key_cache (cfgdir @ ''/key'') (snd r') (snd r) \<and>
         (\<not> (f Io_key_open_wr \<and> f Io_key_write \<and> f Io_key_close) \<longrightarrow>
            (\<exists>m. messages (persist_key (ev\<lparr>io_ok := f\<rparr>) kf K v)
                    = messages v @ [(SX_LOG_WARNING, m)]) \<and>
            (f Io_key_open_wr \<and> f Io_key_unlink \<longrightarrow>
               files (persist_key (ev\<lparr>io_ok := f\<rparr>) kf K v) kf = None))"
proof -
  define S where "S = {(x', x). fst x' = (fst x :: error + aes256_ctx) \<and>
                         same_but_key_cache (cfgdir @ ''/key'') (snd x') (snd x)}"
  have leaf: "((e, v), (e, v)) \<in> S" for e v
    by (simp add: S_def same_but_key_cache_refl)
  note kc = key_and_contexts_io [OF assms(1), where cfgdir = cfgdir and mode = mode, folded S_def]
  have "(r', r) \<in> S"
    unfolding r'_def r_def aes256_data_prepare_def Let_def version_mismatch_io env_io_fields
      custfp_reconcile_io [OF assms(1)] blob_dispatch_io
    by (intro mem_if mem_case_prod mem_case_sum leaf kc)
  then have one: "fst r' = fst r" "same_but_key_cache (cfgdir @ ''/key'') (snd r') (snd r)"
    by (simp_all add: S_def)
  have two: "(\<exists>m. messages (persist_key (ev\<lparr>io_ok := f\<rparr>) kf K v)
                    = messages v @ [(SX_LOG_WARNING, m)]) \<and>
            (f Io_key_open_wr \<and> f Io_key_unlink \<longrightarrow>
               files (persist_key (ev\<lparr>io_ok := f\<rparr>) kf K v) kf = None)"
    if "\<not> (f Io_key_open_wr \<and> f Io_key_write \<and> f Io_key_close)"
    using that by (auto simp: persist_key_def WARN_def unlink_def Let_def)
  from one two show ?thesis by blast
qed

theorem key_cache_failure_only_warns_witness:
  "\<exists>a m. fst (aes256_data_prepare toy_env ''cfg'' None SXF_MODE_UPLOAD example_fresh_world) = Inr a \<and>
     fst (aes256_data_prepare (toy_env\<lparr>io_ok := \<lambda>c. c \<noteq> Io_key_write\<rparr>) ''cfg'' None
            SXF_MODE_UPLOAD example_fresh_world) = Inr a \<and>
     messages (persist_key (toy_env\<lparr>io_ok := \<lambda>c. c \<noteq> Io_key_write\<rparr>) ''cfg/key'' example_key
                 example_fresh_world) = [(SX_LOG_WARNING, m)] \<and>
     files (persist_key (toy_env\<lparr>io_ok := \<lambda>c. c \<noteq> Io_key_write\<rparr>) ''cfg/key'' example_key
              example_fresh_world) ''cfg/key'' = None"
proof -
  let ?f = "\<lambda>c. c \<noteq> Io_key_write"
  have h: "\<forall>c. c \<notin> {Io_key_open_wr, Io_key_write, Io_key_close} \<longrightarrow> ?f c = io_ok toy_env c"
    by (simp add: toy_env_fields)
  obtain a w' where p: "aes256_data_prepare toy_env ''cfg'' None SXF_MODE_UPLOAD example_fresh_world
                         = (Inr a, w')"
    using example_fresh_prepare by blast
  have m0: "messages example_fresh_world = []" by (simp add: example_fresh_world_def)
  note t = key_cache_failure_only_warns [OF h, where cfgdir = "''cfg''" and cfgdata = None
      and mode = SXF_MODE_UPLOAD and w = example_fresh_world and kf = "''cfg/key''"
      and K = example_key and v = example_fresh_world]
  from t have 1: "fst (aes256_data_prepare (toy_env\<lparr>io_ok := ?f\<rparr>) ''cfg'' None
            SXF_MODE_UPLOAD example_fresh_world) = Inr a"
    by (simp add: p)
  from t obtain m where 2:
    "messages (persist_key (toy_env\<lparr>io_ok := ?f\<rparr>) ''cfg/key'' example_key example_fresh_world)
       = [(SX_LOG_WARNING, m)]"
    "files (persist_key (toy_env\<lparr>io_ok := ?f\<rparr>) ''cfg/key'' example_key example_fresh_world)
       ''cfg/key'' = None"
    by (auto simp: m0)
  from p 1 2 show ?thesis by auto
qed

end
